theory Spec2Isabelle
  imports Main "HOL-Library.Word"
begin

unbundle bit_operations_syntax

section \<open>Data model\<close>

text \<open>
  \<^verbatim>\<open>size_t\<close> is taken as a 64-bit unsigned integer and \<^verbatim>\<open>FlagType\<close> is
  \<^verbatim>\<open>uint8_t\<close>; both wrap around.
\<close>

type_synonym size_t = "64 word"
type_synonym FlagType = "8 word"

text \<open>
  A \<^verbatim>\<open>ComponentReferenceControlBlock*\<close>, seen from one pool: the null pointer, the
  address of \<^verbatim>\<open>_pool[k]\<close> (for any integer \<open>k\<close>: only \<open>0 \<le> k < POOL_SIZE\<close> lies in the
  array, the other values are addresses before or behind it, at a whole number of
  elements from its start), or an address strictly inside element \<open>k\<close> (not on an element
  boundary).
\<close>

datatype crcb_ptr = Null | Elem int | Inside int

text \<open>
  The fields of \<^verbatim>\<open>ComponentReferenceControlBlock\<close>. The \<^verbatim>\<open>void *_component\<close> is
  \<open>None\<close> for \<^verbatim>\<open>nullptr\<close> and \<open>Some i\<close> for the address of \<^verbatim>\<open>_components[i]\<close>.
\<close>

record crcb =
  "next" :: crcb_ptr
  component :: "int option"
  tag :: size_t
  flags :: FlagType

definition IS_ACTIVE :: FlagType where "IS_ACTIVE = 1"
definition PENDING_ACTIVE :: FlagType where "PENDING_ACTIVE = 2"
definition PENDING_SLEEP :: FlagType where "PENDING_SLEEP = 4"
definition PENDING_DELETE :: FlagType where "PENDING_DELETE = 8"

text \<open>
  The exceptions of the source are all \<^verbatim>\<open>std::runtime_error\<close>; they are told apart by
  the place that throws them. \<open>ConstructorFailed\<close> stands for whatever the record type's
  constructor throws.
\<close>

datatype error =
    AllocateNotOne        \<comment> \<open>"ObjectPools only support allocating one object at a time."\<close>
  | PoolEmpty             \<comment> \<open>"Tried to allocate an object from the ObjectPool but was empty."\<close>
  | DeallocateNotOne      \<comment> \<open>"ObjectPools only support deallocating one object at a time"\<close>
  | InvalidPointer        \<comment> \<open>"Provided pointer to deallocate did not appear to be valid for the ObjectPool"\<close>
  | AllocationLimit       \<comment> \<open>"Allocation limit reached for component store."\<close>
  | InvalidReference      \<comment> \<open>"Component reference was invalid."\<close>
  | ForeignReference      \<comment> \<open>"Tried to ... component that did not belong to this component pool."\<close>
  | DereferenceInvalid    \<comment> \<open>"Tried to dereference component but reference has been invalidated."\<close>
  | ConstructorFailed

text \<open>
  What a call does: it returns a value and leaves a state, it throws and leaves the state
  it had reached at the throw, or it runs into undefined behaviour (an access outside an
  array, a null or indeterminate pointer dereferenced), after which nothing is known.
\<close>

datatype ('a, 's) outcome = Returned 'a 's | Thrown error 's | Undefined

section \<open>ComponentReferenceControlBlock\<close>

definition ComponentReferenceControlBlock :: crcb where
  "ComponentReferenceControlBlock = \<lparr>next = Null, component = None, tag = 0, flags = 0\<rparr>"

text \<open>The destructor: the state is cleared and the garbage tag incremented.\<close>

definition destruct :: "crcb \<Rightarrow> crcb" where
  "destruct b = b\<lparr>component := None, flags := 0, next := Null, tag := tag b + 1\<rparr>"

text \<open>
  The constructor taking a component pointer, run by placement new on a block of the pool:
  it does not initialise \<^verbatim>\<open>_tag\<close>, which keeps the value the block had.
\<close>

definition construct :: "int option \<Rightarrow> crcb \<Rightarrow> crcb" where
  "construct c b = b\<lparr>next := Null, component := c, flags := IS_ACTIVE\<rparr>"

definition IsComponentActive :: "crcb \<Rightarrow> bool" where
  "IsComponentActive b = (flags b AND IS_ACTIVE \<noteq> 0)"

definition SetComponentActive :: "bool \<Rightarrow> crcb \<Rightarrow> crcb" where
  "SetComponentActive new_active b =
     (let f = (if new_active then IS_ACTIVE else 0)
      in b\<lparr>flags := (flags b AND NOT IS_ACTIVE) OR f\<rparr>)"

definition MarkActiveStateChange :: "bool \<Rightarrow> crcb \<Rightarrow> crcb" where
  "MarkActiveStateChange new_active b =
     (let f = (if new_active then PENDING_ACTIVE else PENDING_SLEEP)
      in b\<lparr>flags := flags b OR f\<rparr>)"

definition IsPendingChanges :: "crcb \<Rightarrow> bool" where
  "IsPendingChanges b =
     (flags b AND PENDING_ACTIVE \<noteq> 0 \<or> flags b AND PENDING_SLEEP \<noteq> 0
      \<or> flags b AND PENDING_DELETE \<noteq> 0)"

definition IsPendingActiveStateChange :: "crcb \<Rightarrow> bool" where
  "IsPendingActiveStateChange b =
     (flags b AND PENDING_ACTIVE \<noteq> 0 \<or> flags b AND PENDING_SLEEP \<noteq> 0)"

definition GetPendingActiveStateChange :: "crcb \<Rightarrow> bool" where
  "GetPendingActiveStateChange b = (flags b AND PENDING_ACTIVE \<noteq> 0)"

definition ClearPendingChanges :: "crcb \<Rightarrow> crcb" where
  "ClearPendingChanges b =
     b\<lparr>flags := flags b AND NOT (PENDING_ACTIVE OR PENDING_SLEEP OR PENDING_DELETE)\<rparr>"

definition MarkForDeletion :: "crcb \<Rightarrow> crcb" where
  "MarkForDeletion b = b\<lparr>flags := flags b OR PENDING_DELETE\<rparr>"

definition IsPendingDeletion :: "crcb \<Rightarrow> bool" where
  "IsPendingDeletion b = (flags b AND PENDING_DELETE \<noteq> 0)"

definition GetGarbageTag :: "crcb \<Rightarrow> size_t" where
  "GetGarbageTag b = tag b"

definition GetComponentPtr :: "crcb \<Rightarrow> int option" where
  "GetComponentPtr b = component b"

section \<open>CRCBPool\<close>

text \<open>
  The pool's state. \<open>mem\<close> is the memory holding control blocks, read through a pointer:
  \<^verbatim>\<open>_pool[k]\<close> is \<open>mem (Elem k)\<close> for \<open>0 \<le> k < POOL_SIZE\<close>. The other addresses are
  memory the pool does not own (blocks of another pool, say); the pool never writes there,
  and only \<^verbatim>\<open>ComponentReference::IsValid\<close> reads there, through a reference that
  was not made by this store.
\<close>

record CRCBPool =
  pool_head :: crcb_ptr
  mem :: "crcb_ptr \<Rightarrow> crcb"

text \<open>
  The constructor's loop \<^verbatim>\<open>for (i = 0; i < POOL_SIZE - 1; i++) _pool[i]._next = &_pool[i + 1]\<close>,
  run for \<open>n\<close> iterations, on the array of default-constructed blocks.
\<close>

primrec link_pool :: "nat \<Rightarrow> (crcb_ptr \<Rightarrow> crcb) \<Rightarrow> (crcb_ptr \<Rightarrow> crcb)" where
  "link_pool 0 m = m"
| "link_pool (Suc n) m =
     (let m' = link_pool n m
      in m'(Elem (int n) := (m' (Elem (int n)))\<lparr>next := Elem (int n + 1)\<rparr>))"

text \<open>
  \<open>outside\<close> is the content of the memory that is not the pool's array. \<open>POOL_SIZE\<close> is the
  template parameter.
\<close>

definition CRCBPool :: "nat \<Rightarrow> (crcb_ptr \<Rightarrow> crcb) \<Rightarrow> CRCBPool" where
  "CRCBPool POOL_SIZE outside =
     \<lparr>pool_head = Elem 0,
      mem = link_pool (POOL_SIZE - 1)
              (\<lambda>p. case p of
                      Elem k \<Rightarrow> if 0 \<le> k \<and> k < int POOL_SIZE
                                then ComponentReferenceControlBlock else outside p
                    | _ \<Rightarrow> outside p)\<rparr>"

text \<open>
  \<^verbatim>\<open>ptr - std::addressof(_pool[0])\<close>: the number of whole elements between the two
  addresses. For the null pointer the difference depends on where the pool lies; the value
  is not used then, since \<^verbatim>\<open>!ptr\<close> decides the test.
\<close>

fun pool_offset :: "crcb_ptr \<Rightarrow> int" where
  "pool_offset Null = 0"
| "pool_offset (Elem k) = k"
| "pool_offset (Inside k) = k"

definition IsPointerValid :: "nat \<Rightarrow> crcb_ptr \<Rightarrow> bool" where
  "IsPointerValid POOL_SIZE ptr =
     (let offset = pool_offset ptr
      in \<not> (ptr = Null \<or> (offset < 0 \<or> offset \<ge> int POOL_SIZE) \<or> Elem offset \<noteq> ptr))"

definition Allocate :: "size_t \<Rightarrow> CRCBPool \<Rightarrow> (crcb_ptr, CRCBPool) outcome" where
  "Allocate num_objects P =
     (if num_objects \<noteq> 1 then Thrown AllocateNotOne P
      else if pool_head P = Null then Thrown PoolEmpty P
      else let item = pool_head P
           in Returned item (P\<lparr>pool_head := next (mem P (pool_head P))\<rparr>))"

definition Deallocate :: "nat \<Rightarrow> crcb_ptr \<Rightarrow> size_t \<Rightarrow> CRCBPool \<Rightarrow> (unit, CRCBPool) outcome" where
  "Deallocate POOL_SIZE pool_item num_objects P =
     (if num_objects \<noteq> 1 then Thrown DeallocateNotOne P
      else if \<not> IsPointerValid POOL_SIZE pool_item then Thrown InvalidPointer P
      else Returned ()
             (P\<lparr>mem := (mem P)(pool_item := (mem P pool_item)\<lparr>next := pool_head P\<rparr>),
                pool_head := pool_item\<rparr>))"

definition MaxSize :: "CRCBPool \<Rightarrow> size_t" where
  "MaxSize P = 1"

definition Construct :: "crcb_ptr \<Rightarrow> int option \<Rightarrow> CRCBPool \<Rightarrow> CRCBPool" where
  "Construct p c P = P\<lparr>mem := (mem P)(p := construct c (mem P p))\<rparr>"

definition Destroy :: "crcb_ptr \<Rightarrow> CRCBPool \<Rightarrow> CRCBPool" where
  "Destroy p P = P\<lparr>mem := (mem P)(p := destruct (mem P p))\<rparr>"

section \<open>ComponentReference\<close>

text \<open>
  A reference holds the control block's pointer (\<^verbatim>\<open>_context\<close>) and the tag the block had
  when the reference was made. The functions that read the block take the memory \<open>m\<close>.
\<close>

record ComponentReference =
  context_ptr :: crcb_ptr
  control_block_tag :: size_t

definition null_reference :: ComponentReference where
  "null_reference = \<lparr>context_ptr = Null, control_block_tag = 0\<rparr>"

definition reference_to :: "(crcb_ptr \<Rightarrow> crcb) \<Rightarrow> crcb_ptr \<Rightarrow> ComponentReference" where
  "reference_to m ctx = \<lparr>context_ptr = ctx, control_block_tag = GetGarbageTag (m ctx)\<rparr>"

definition IsValid :: "(crcb_ptr \<Rightarrow> crcb) \<Rightarrow> ComponentReference \<Rightarrow> bool" where
  "IsValid m r =
     (context_ptr r \<noteq> Null \<and> control_block_tag r = GetGarbageTag (m (context_ptr r)))"

definition Get :: "(crcb_ptr \<Rightarrow> crcb) \<Rightarrow> ComponentReference \<Rightarrow> error + int option" where
  "Get m r =
     (if \<not> IsValid m r then Inl DereferenceInvalid
      else Inr (GetComponentPtr (m (context_ptr r))))"

section \<open>ComponentPool\<close>

text \<open>
  The record type \<open>'c\<close> is a parameter. A slot of \<^verbatim>\<open>_components\<close> holds \<open>Some c\<close> when a
  record made by \<^verbatim>\<open>Create\<close> lives there, and \<open>None\<close> before that and after its
  destructor has run. An entry of \<^verbatim>\<open>_control_table\<close> that was never written is \<open>Null\<close>
  here: the table is only read to dereference the entry, which is undefined for both.
\<close>

record 'c ComponentPool =
  control_block_pool :: CRCBPool
  components :: "nat \<Rightarrow> 'c option"
  control_table :: "nat \<Rightarrow> crcb_ptr"
  pending_changes_head :: crcb_ptr
  num_active_components :: size_t
  num_sleeping_components :: size_t

definition MAX_COMPONENTS :: nat where
  "MAX_COMPONENTS = 1000"

definition ComponentPool :: "(crcb_ptr \<Rightarrow> crcb) \<Rightarrow> 'c ComponentPool" where
  "ComponentPool outside =
     \<lparr>control_block_pool = CRCBPool MAX_COMPONENTS outside,
      components = (\<lambda>i. None),
      control_table = (\<lambda>i. Null),
      pending_changes_head = Null,
      num_active_components = 0,
      num_sleeping_components = 0\<rparr>"

text \<open>Reading and writing the control block behind a pointer.\<close>

definition block :: "'c ComponentPool \<Rightarrow> crcb_ptr \<Rightarrow> crcb" where
  "block p ptr = mem (control_block_pool p) ptr"

definition update_block :: "crcb_ptr \<Rightarrow> (crcb \<Rightarrow> crcb) \<Rightarrow> 'c ComponentPool \<Rightarrow> 'c ComponentPool" where
  "update_block ptr f p =
     p\<lparr>control_block_pool :=
         (control_block_pool p)\<lparr>mem := (mem (control_block_pool p))
                                        (ptr := f (mem (control_block_pool p) ptr))\<rparr>\<rparr>"

definition Count :: "'c ComponentPool \<Rightarrow> size_t" where
  "Count p = num_active_components p + num_sleeping_components p"

text \<open>
  \<^verbatim>\<open>Update\<close>: the loop over the slots \<open>i\<close> with \<^verbatim>\<open>_num_sleeping_components \<le> i < count\<close>.
  \<open>tick\<close> is what the record type's \<^verbatim>\<open>Update(dt)\<close> does to a record. The model returns the
  records the callback was invoked on, in order (the source returns nothing).
\<close>

fun Update_loop :: "('c \<Rightarrow> 'c) \<Rightarrow> nat list \<Rightarrow> 'c ComponentPool \<Rightarrow> ('c list, 'c ComponentPool) outcome" where
  "Update_loop tick [] p = Returned [] p"
| "Update_loop tick (i # rest) p =
     (if \<not> i < MAX_COMPONENTS then Undefined
      else case components p i of
             None \<Rightarrow> Undefined
           | Some c \<Rightarrow>
               (case Update_loop tick rest (p\<lparr>components := (components p)(i := Some (tick c))\<rparr>) of
                  Returned cs p' \<Rightarrow> Returned (c # cs) p'
                | Thrown e p' \<Rightarrow> Thrown e p'
                | Undefined \<Rightarrow> Undefined))"

definition Update :: "('c \<Rightarrow> 'c) \<Rightarrow> 'c ComponentPool \<Rightarrow> ('c list, 'c ComponentPool) outcome" where
  "Update tick p =
     (let count = Count p
      in Update_loop tick [unat (num_sleeping_components p) ..< unat count] p)"

text \<open>
  \<^verbatim>\<open>Create\<close>. \<open>constructed\<close> is what the record type's constructor does on the arguments:
  \<open>Some c\<close> when it makes the record \<open>c\<close>, \<open>None\<close> when it throws.
\<close>

definition Create :: "'c option \<Rightarrow> 'c ComponentPool \<Rightarrow> (ComponentReference, 'c ComponentPool) outcome" where
  "Create constructed p =
     (let count = Count p
      in if count = of_nat MAX_COMPONENTS then Thrown AllocationLimit p
         else case Allocate 1 (control_block_pool p) of
                Thrown e P1 \<Rightarrow> Thrown e (p\<lparr>control_block_pool := P1\<rparr>)
              | Undefined \<Rightarrow> Undefined
              | Returned control_block P1 \<Rightarrow>
                  if \<not> unat count < MAX_COMPONENTS then Undefined
                  else let component = Some (int (unat count))
                       in (case constructed of
                             None \<Rightarrow>
                               (case Deallocate MAX_COMPONENTS control_block 1 P1 of
                                  Returned u P2 \<Rightarrow> Thrown ConstructorFailed (p\<lparr>control_block_pool := P2\<rparr>)
                                | Thrown e P2 \<Rightarrow> Thrown e (p\<lparr>control_block_pool := P2\<rparr>)
                                | Undefined \<Rightarrow> Undefined)
                           | Some c \<Rightarrow>
                               (let P2 = Construct control_block component P1
                                in Returned (reference_to (mem P2) control_block)
                                     (p\<lparr>components := (components p)(unat count := Some c),
                                        control_block_pool := P2,
                                        control_table := (control_table p)(unat count := control_block),
                                        num_active_components := num_active_components p + 1\<rparr>))))"

text \<open>Pushing a control block on the pending changes list, as \<^verbatim>\<open>SetActive\<close> and \<^verbatim>\<open>Delete\<close> do.\<close>

definition push_pending :: "crcb_ptr \<Rightarrow> 'c ComponentPool \<Rightarrow> 'c ComponentPool" where
  "push_pending ctx p =
     (update_block ctx (\<lambda>b. b\<lparr>next := pending_changes_head p\<rparr>) p)\<lparr>pending_changes_head := ctx\<rparr>"

definition SetActive :: "ComponentReference \<Rightarrow> bool \<Rightarrow> 'c ComponentPool \<Rightarrow> (unit, 'c ComponentPool) outcome" where
  "SetActive r new_active p =
     (if \<not> IsValid (mem (control_block_pool p)) r then Thrown InvalidReference p
      else let ctx = context_ptr r
           in if \<not> IsPointerValid MAX_COMPONENTS ctx then Thrown ForeignReference p
              else if new_active = IsComponentActive (block p ctx) then Returned () p
              else let p1 = (if \<not> IsPendingChanges (block p ctx) then push_pending ctx p else p)
                   in Returned () (update_block ctx (MarkActiveStateChange new_active) p1))"

definition Delete :: "ComponentReference \<Rightarrow> 'c ComponentPool \<Rightarrow> (unit, 'c ComponentPool) outcome" where
  "Delete r p =
     (if \<not> IsValid (mem (control_block_pool p)) r then Thrown InvalidReference p
      else let ctx = context_ptr r
           in if \<not> IsPointerValid MAX_COMPONENTS ctx then Thrown ForeignReference p
              else let p1 = (if \<not> IsPendingChanges (block p ctx) then push_pending ctx p else p)
                   in Returned () (update_block ctx MarkForDeletion p1))"

text \<open>
  \<^verbatim>\<open>SwapComponents\<close>. The indices are \<^verbatim>\<open>size_t\<close>; an index outside the arrays and a null
  table entry dereferenced are undefined behaviour.
\<close>

definition SwapComponents :: "size_t \<Rightarrow> size_t \<Rightarrow> 'c ComponentPool \<Rightarrow> (unit, 'c ComponentPool) outcome" where
  "SwapComponents loc_index target_index p =
     (if loc_index \<noteq> target_index then
        (let l = unat loc_index; t = unat target_index
         in if \<not> (l < MAX_COMPONENTS \<and> t < MAX_COMPONENTS) then Undefined
            else if control_table p l = Null \<or> control_table p t = Null then Undefined
            else let cl = component (block p (control_table p l));
                     p1 = update_block (control_table p l)
                            (\<lambda>b. b\<lparr>component := component (block p (control_table p t))\<rparr>) p;
                     p2 = update_block (control_table p t) (\<lambda>b. b\<lparr>component := cl\<rparr>) p1
                 in Returned ()
                      (p2\<lparr>components := (components p)(l := components p t, t := components p l),
                          control_table := (control_table p)(l := control_table p t, t := control_table p l)\<rparr>))
      else Returned () p)"

text \<open>
  \<^verbatim>\<open>SetActiveInternal\<close>. The pointer differences are \<^verbatim>\<open>ptrdiff_t\<close> values, converted to
  \<^verbatim>\<open>size_t\<close> when passed to \<^verbatim>\<open>SwapComponents\<close>. A difference taken from a null
  \<^verbatim>\<open>_component\<close> is undefined.
\<close>

definition SetActiveInternal :: "crcb_ptr \<Rightarrow> bool \<Rightarrow> 'c ComponentPool \<Rightarrow> (unit, 'c ComponentPool) outcome" where
  "SetActiveInternal ctx new_active p =
     (if new_active = IsComponentActive (block p ctx) then Returned () p
      else case component (block p ctx) of
             None \<Rightarrow> Undefined
           | Some c \<Rightarrow>
               if new_active then
                 (let loc_index = c - 0;
                      target_index = num_sleeping_components p - 1
                  in case SwapComponents (word_of_int loc_index) target_index p of
                       Returned u p1 \<Rightarrow>
                         Returned () (update_block ctx (SetComponentActive new_active)
                           (p1\<lparr>num_sleeping_components := num_sleeping_components p1 - 1,
                               num_active_components := num_active_components p1 + 1\<rparr>))
                     | Thrown e p1 \<Rightarrow> Thrown e p1
                     | Undefined \<Rightarrow> Undefined)
               else
                 (let loc_index = c - int (unat (num_sleeping_components p));
                      target_index = num_sleeping_components p
                  in case SwapComponents (word_of_int loc_index) target_index p of
                       Returned u p1 \<Rightarrow>
                         Returned () (update_block ctx (SetComponentActive new_active)
                           (p1\<lparr>num_sleeping_components := num_sleeping_components p1 + 1,
                               num_active_components := num_active_components p1 - 1\<rparr>))
                     | Thrown e p1 \<Rightarrow> Thrown e p1
                     | Undefined \<Rightarrow> Undefined))"

definition DeleteInternal :: "crcb_ptr \<Rightarrow> 'c ComponentPool \<Rightarrow> (unit, 'c ComponentPool) outcome" where
  "DeleteInternal ctx p =
     (case SetActiveInternal ctx True p of
        Returned u p1 \<Rightarrow>
          (case component (block p1 ctx) of
             None \<Rightarrow> Undefined
           | Some c \<Rightarrow>
               (let loc_index = c - 0;
                    target_index = Count p1 - 1
                in case SwapComponents (word_of_int loc_index) target_index p1 of
                     Returned u p2 \<Rightarrow>
                       if \<not> unat target_index < MAX_COMPONENTS then Undefined
                       else Returned ()
                              (p2\<lparr>components := (components p2)(unat target_index := None),
                                  num_active_components := num_active_components p2 - 1\<rparr>)
                   | Thrown e p2 \<Rightarrow> Thrown e p2
                   | Undefined \<Rightarrow> Undefined))
      | Thrown e p1 \<Rightarrow> Thrown e p1
      | Undefined \<Rightarrow> Undefined)"

text \<open>
  The body of the loop of \<^verbatim>\<open>LateUpdate\<close>, after \<^verbatim>\<open>control\<close> has been popped from the list.
\<close>

definition apply_pending :: "crcb_ptr \<Rightarrow> 'c ComponentPool \<Rightarrow> (unit, 'c ComponentPool) outcome" where
  "apply_pending control p =
     (if IsPendingDeletion (block p control) then
        (case DeleteInternal control p of
           Returned u p1 \<Rightarrow>
             (case Deallocate MAX_COMPONENTS control 1 (Destroy control (control_block_pool p1)) of
                Returned u P3 \<Rightarrow> Returned () (p1\<lparr>control_block_pool := P3\<rparr>)
              | Thrown e P3 \<Rightarrow> Thrown e (p1\<lparr>control_block_pool := P3\<rparr>)
              | Undefined \<Rightarrow> Undefined)
         | Thrown e p1 \<Rightarrow> Thrown e p1
         | Undefined \<Rightarrow> Undefined)
      else if IsPendingActiveStateChange (block p control) then
        (case SetActiveInternal control (GetPendingActiveStateChange (block p control)) p of
           Returned u p1 \<Rightarrow> Returned () (update_block control ClearPendingChanges p1)
         | Thrown e p1 \<Rightarrow> Thrown e p1
         | Undefined \<Rightarrow> Undefined)
      else Returned () p)"

text \<open>
  \<^verbatim>\<open>LateUpdate\<close>: the loop runs while the list's head is not null, so it need not end when
  the \<^verbatim>\<open>_next\<close> pointers form a cycle; the result is \<open>None\<close> then. The model returns the
  control blocks the loop popped, in order (the source returns nothing).
\<close>

partial_function (option) LateUpdate :: "'c ComponentPool \<Rightarrow> (crcb_ptr list, 'c ComponentPool) outcome option" where
  "LateUpdate p =
     (if pending_changes_head p \<noteq> Null then
        (let control = pending_changes_head p;
             p1 = p\<lparr>pending_changes_head := next (block p (pending_changes_head p))\<rparr>
         in case apply_pending control p1 of
              Returned u p2 \<Rightarrow>
                Option.bind (LateUpdate p2)
                  (\<lambda>r. case r of
                         Returned cs p3 \<Rightarrow> Some (Returned (control # cs) p3)
                       | Thrown e p3 \<Rightarrow> Some (Thrown e p3)
                       | Undefined \<Rightarrow> Some Undefined)
            | Thrown e p2 \<Rightarrow> Some (Thrown e p2)
            | Undefined \<Rightarrow> Some Undefined)
      else Some (Returned [] p))"

declare LateUpdate.simps [code]

section \<open>The testbed\<close>

text \<open>
  \<^verbatim>\<open>_tmain\<close> makes a pool, keeps the references \<^verbatim>\<open>Create\<close> returns (\<^verbatim>\<open>cat1\<close>, \<^verbatim>\<open>cat2\<close>,
  \<^verbatim>\<open>cat3\<close>) and calls the pool's public functions on them. A program of that shape is a
  list of calls, each naming a reference by its position among those created so far. An
  exception is not caught: it ends the program. \<open>printed\<close> collects what each \<^verbatim>\<open>Update\<close>
  call ticked.
\<close>

definition blank_memory :: "crcb_ptr \<Rightarrow> crcb" where
  "blank_memory ptr = ComponentReferenceControlBlock"

datatype 'c call =
    DoCreate "'c option"
  | DoSetActive nat bool
  | DoDelete nat
  | DoUpdate
  | DoLateUpdate

record 'c testbed =
  test_manager :: "'c ComponentPool"
  cats :: "ComponentReference list"
  printed :: "'c list list"

definition testbed :: "(crcb_ptr \<Rightarrow> crcb) \<Rightarrow> 'c testbed" where
  "testbed outside = \<lparr>test_manager = ComponentPool outside, cats = [], printed = []\<rparr>"

definition cat :: "'c testbed \<Rightarrow> nat \<Rightarrow> ComponentReference" where
  "cat t i = (if i < length (cats t) then cats t ! i else null_reference)"

fun run_call :: "('c \<Rightarrow> 'c) \<Rightarrow> 'c call \<Rightarrow> 'c testbed \<Rightarrow> (unit, 'c testbed) outcome option" where
  "run_call tick (DoCreate c) t =
     Some (case Create c (test_manager t) of
             Returned r p \<Rightarrow> Returned () (t\<lparr>test_manager := p, cats := cats t @ [r]\<rparr>)
           | Thrown e p \<Rightarrow> Thrown e (t\<lparr>test_manager := p\<rparr>)
           | Undefined \<Rightarrow> Undefined)"
| "run_call tick (DoSetActive i v) t =
     Some (case SetActive (cat t i) v (test_manager t) of
             Returned u p \<Rightarrow> Returned () (t\<lparr>test_manager := p\<rparr>)
           | Thrown e p \<Rightarrow> Thrown e (t\<lparr>test_manager := p\<rparr>)
           | Undefined \<Rightarrow> Undefined)"
| "run_call tick (DoDelete i) t =
     Some (case Delete (cat t i) (test_manager t) of
             Returned u p \<Rightarrow> Returned () (t\<lparr>test_manager := p\<rparr>)
           | Thrown e p \<Rightarrow> Thrown e (t\<lparr>test_manager := p\<rparr>)
           | Undefined \<Rightarrow> Undefined)"
| "run_call tick DoUpdate t =
     Some (case Update tick (test_manager t) of
             Returned cs p \<Rightarrow> Returned () (t\<lparr>test_manager := p, printed := printed t @ [cs]\<rparr>)
           | Thrown e p \<Rightarrow> Thrown e (t\<lparr>test_manager := p\<rparr>)
           | Undefined \<Rightarrow> Undefined)"
| "run_call tick DoLateUpdate t =
     (case LateUpdate (test_manager t) of
        None \<Rightarrow> None
      | Some (Returned cs p) \<Rightarrow> Some (Returned () (t\<lparr>test_manager := p\<rparr>))
      | Some (Thrown e p) \<Rightarrow> Some (Thrown e (t\<lparr>test_manager := p\<rparr>))
      | Some Undefined \<Rightarrow> Some Undefined)"

fun run :: "('c \<Rightarrow> 'c) \<Rightarrow> 'c call list \<Rightarrow> 'c testbed \<Rightarrow> (unit, 'c testbed) outcome option" where
  "run tick [] t = Some (Returned () t)"
| "run tick (c # cs) t =
     (case run_call tick c t of
        Some (Returned u t') \<Rightarrow> run tick cs t'
      | r \<Rightarrow> r)"

section \<open>The linked lists\<close>

text \<open>
  The free list and the pending changes list are threaded through the \<^verbatim>\<open>_next\<close> fields.
  \<open>lseg m h xs e\<close>: following \<^verbatim>\<open>_next\<close> in the memory \<open>m\<close> from the pointer \<open>h\<close> visits the
  blocks \<open>xs\<close>, none of them null, and then reaches \<open>e\<close>.
\<close>

fun lseg :: "(crcb_ptr \<Rightarrow> crcb) \<Rightarrow> crcb_ptr \<Rightarrow> crcb_ptr list \<Rightarrow> crcb_ptr \<Rightarrow> bool" where
  "lseg m h [] e = (h = e)"
| "lseg m h (x # xs) e = (h = x \<and> x \<noteq> Null \<and> lseg m (next (m x)) xs e)"

text \<open>
  The control block \<open>c\<close> is on the pending changes list: the list leads from its head to
  \<open>c\<close>, through blocks that are all different.
\<close>

definition queued :: "'c ComponentPool \<Rightarrow> crcb_ptr \<Rightarrow> bool" where
  "queued p c \<longleftrightarrow>
     (\<exists>xs e. lseg (block p) (pending_changes_head p) (xs @ [c]) e \<and> distinct (xs @ [c]))"

text \<open>
  What a step from \<open>p\<close> to \<open>p'\<close> leaves alone in the block \<open>b\<close>: when \<open>b\<close> is not marked for
  deletion its tag stays and it is not marked afterwards, and when it has no pending change
  at all its flags and its \<^verbatim>\<open>_next\<close> stay too.
\<close>

definition kept :: "crcb_ptr \<Rightarrow> 'c ComponentPool \<Rightarrow> 'c ComponentPool \<Rightarrow> bool" where
  "kept b p p' \<longleftrightarrow>
     (\<not> IsPendingDeletion (block p b) \<longrightarrow>
        tag (block p' b) = tag (block p b) \<and> \<not> IsPendingDeletion (block p' b) \<and>
        (\<not> IsPendingChanges (block p b) \<longrightarrow>
           flags (block p' b) = flags (block p b) \<and> next (block p' b) = next (block p b)))"

section \<open>The store's bookkeeping\<close>

text \<open>
  What the store relies on between calls. The two counts add up within the capacity, so
  that \<^verbatim>\<open>Count()\<close> does not wrap. Every occupied slot \<open>j\<close> (below \<^verbatim>\<open>Count()\<close>) has in
  \<^verbatim>\<open>_control_table[j]\<close> a control block of the pool whose \<^verbatim>\<open>_component\<close> is the address of
  \<^verbatim>\<open>_components[j]\<close>. The number of occupied slots whose block is flagged active is
  \<^verbatim>\<open>_num_active_components\<close>. Nothing is said about where the records flagged asleep lie.
\<close>

definition store_inv :: "'c ComponentPool \<Rightarrow> bool" where
  "store_inv p \<longleftrightarrow>
     unat (num_sleeping_components p) + unat (num_active_components p) \<le> MAX_COMPONENTS \<and>
     list_all (\<lambda>j. IsPointerValid MAX_COMPONENTS (control_table p j) \<and>
                   component (block p (control_table p j)) = Some (int j)) [0..<unat (Count p)] \<and>
     length (filter (\<lambda>j. IsComponentActive (block p (control_table p j))) [0..<unat (Count p)]) =
       unat (num_active_components p)"

text \<open>
  A control block is live when it is the block of an occupied slot; \<open>record_of\<close> is the
  record its \<^verbatim>\<open>_component\<close> pointer leads to (what \<^verbatim>\<open>*reference.Get()\<close> reads).
\<close>

definition live :: "'c ComponentPool \<Rightarrow> crcb_ptr \<Rightarrow> bool" where
  "live p b \<longleftrightarrow> b \<in> set (map (control_table p) [0..<unat (Count p)])"

definition record_of :: "'c ComponentPool \<Rightarrow> crcb_ptr \<Rightarrow> 'c option" where
  "record_of p b =
     (case component (block p b) of
        None \<Rightarrow> None
      | Some j \<Rightarrow> if 0 \<le> j \<and> j < int MAX_COMPONENTS then components p (nat j) else None)"

text \<open>
  The one case in which the loop of \<^verbatim>\<open>LateUpdate\<close> runs the sleep branch of
  \<^verbatim>\<open>SetActiveInternal\<close> on a block: no deletion is pending, a sleep is, and the block is
  flagged active.
\<close>

definition sleep_due :: "crcb \<Rightarrow> bool" where
  "sleep_due b \<longleftrightarrow>
     \<not> IsPendingDeletion b \<and> IsPendingActiveStateChange b \<and>
     \<not> GetPendingActiveStateChange b \<and> IsComponentActive b"

text \<open>
  What a checkpoint that returns has done, when \<open>xs\<close> was the pending changes list of the
  store \<open>p\<close> and \<open>p'\<close> is the store it leaves: the bookkeeping holds, the list is empty, the
  blocks of \<open>xs\<close> marked for deletion are no longer live, they are cleared, unbound and their
  tag is incremented, and they have been pushed on the free list in the order of \<open>xs\<close>; every
  other live block is still live and leads to the record it led to; and a block that was
  not live is as it was.
\<close>

definition applied :: "'c ComponentPool \<Rightarrow> crcb_ptr list \<Rightarrow> 'c ComponentPool \<Rightarrow> bool" where
  "applied p xs p' \<longleftrightarrow>
     store_inv p' \<and> pending_changes_head p' = Null \<and>
     (\<forall>b. b \<notin> set xs \<longrightarrow> live p' b = live p b) \<and>
     (\<forall>b. live p b \<and> \<not> (b \<in> set xs \<and> IsPendingDeletion (block p b)) \<longrightarrow>
          live p' b \<and> record_of p' b = record_of p b) \<and>
     (\<forall>b. b \<in> set xs \<and> IsPendingDeletion (block p b) \<longrightarrow>
          \<not> live p' b \<and> flags (block p' b) = 0 \<and> component (block p' b) = None \<and>
          tag (block p' b) = tag (block p b) + 1) \<and>
     (\<forall>b. \<not> live p b \<longrightarrow> block p' b = block p b) \<and>
     lseg (block p') (pool_head (control_block_pool p'))
       (rev (filter (\<lambda>x. IsPendingDeletion (block p x)) xs)) (pool_head (control_block_pool p))"

text \<open>
  The control block as it would be had no activation or sleep request been made for it:
  the two request flags are cleared, the rest is kept.
\<close>

definition withdraw :: "crcb \<Rightarrow> crcb" where
  "withdraw b = b\<lparr>flags := (flags b AND NOT PENDING_ACTIVE) AND NOT PENDING_SLEEP\<rparr>"

section \<open>Scenarios\<close>

text \<open>The store after \<open>n\<close> calls of \<^verbatim>\<open>Create\<close> with the record \<open>c\<close>.\<close>

primrec created :: "nat \<Rightarrow> 'c \<Rightarrow> 'c ComponentPool \<Rightarrow> 'c ComponentPool" where
  "created 0 c p = p"
| "created (Suc n) c p =
     (case Create (Some c) (created n c p) of
        Returned r p' \<Rightarrow> p'
      | Thrown e p' \<Rightarrow> p'
      | Undefined \<Rightarrow> created n c p)"

text \<open>
  A request is a call of \<^verbatim>\<open>SetActive\<close> or \<^verbatim>\<open>Delete\<close>; its target is the control block of the
  reference it names. It enqueues when it puts that block on the pending changes list:
  the block has no pending change yet and, for \<^verbatim>\<open>SetActive\<close>, is not already in the
  desired state.
\<close>

fun request_target :: "'c testbed \<Rightarrow> 'c call \<Rightarrow> crcb_ptr" where
  "request_target t (DoSetActive i v) = context_ptr (cat t i)"
| "request_target t (DoDelete i) = context_ptr (cat t i)"
| "request_target t c = Null"

fun enqueues :: "'c testbed \<Rightarrow> 'c call \<Rightarrow> bool" where
  "enqueues t (DoSetActive i v) =
     (\<not> IsPendingChanges (block (test_manager t) (context_ptr (cat t i))) \<and>
      v \<noteq> IsComponentActive (block (test_manager t) (context_ptr (cat t i))))"
| "enqueues t (DoDelete i) =
     (\<not> IsPendingChanges (block (test_manager t) (context_ptr (cat t i))))"
| "enqueues t c = False"

text \<open>
  The testbed a program ends in when it runs to its end, and what can be seen of it from
  outside: the two counts, for each reference what \<^verbatim>\<open>Get\<close> gives and whether its block is
  flagged active, and what the \<^verbatim>\<open>Update\<close> calls ticked.
\<close>

fun final :: "(unit, 'c testbed) outcome option \<Rightarrow> 'c testbed option" where
  "final (Some (Returned u t)) = Some t"
| "final r = None"

definition observe :: "'c testbed \<Rightarrow> nat \<times> nat \<times> ((error + int option) \<times> bool) list \<times> 'c list list" where
  "observe t =
     (unat (num_sleeping_components (test_manager t)),
      unat (num_active_components (test_manager t)),
      map (\<lambda>r. (Get (mem (control_block_pool (test_manager t))) r,
                IsComponentActive (block (test_manager t) (context_ptr r)))) (cats t),
      printed t)"

definition testbed_after :: "'c call list \<Rightarrow> 'c testbed" where
  "testbed_after calls =
     (case final (run id calls (testbed blank_memory)) of
        Some t \<Rightarrow> t
      | None \<Rightarrow> testbed blank_memory)"

text \<open>
  The programs used as examples. \<open>reuse_calls\<close>: a record is created and deleted, and after
  the checkpoint another one is created. \<open>wake_delete_calls\<close>: of three records the
  second is put to sleep; after the checkpoint the first is asked to sleep and to be deleted
  and the second to wake, and the checkpoint is applied. \<open>sleep_wake_calls\<close>: of three records the third
  is put to sleep, and after the checkpoint the first is asked to sleep and then to wake. \<open>three_cats\<close> are the three \<^verbatim>\<open>Create\<close> calls of
  \<^verbatim>\<open>_tmain\<close>, \<open>three_requests\<close> one request for each of them. \<open>two_ticks\<close>: ticks during
  which the second record sleeps and wakes and the first is deleted. \<open>sleep_twice_calls\<close>:
  of three records the third is put to sleep, and after the checkpoint the first;
  \<open>sleep_thrice_calls\<close> then puts the second to sleep as well.
\<close>

definition reuse_calls :: "nat call list" where
  "reuse_calls = [DoCreate (Some 1), DoDelete 0, DoLateUpdate, DoCreate (Some 2)]"

definition wake_delete_calls :: "nat call list" where
  "wake_delete_calls =
     [DoCreate (Some 1), DoCreate (Some 2), DoCreate (Some 3), DoSetActive 1 False, DoLateUpdate,
      DoSetActive 0 False, DoDelete 0, DoSetActive 1 True, DoLateUpdate]"

definition sleep_wake_calls :: "nat call list" where
  "sleep_wake_calls =
     [DoCreate (Some 1), DoCreate (Some 2), DoCreate (Some 3),
      DoSetActive 2 False, DoLateUpdate, DoSetActive 0 False, DoSetActive 0 True]"

definition three_cats :: "nat call list" where
  "three_cats = [DoCreate (Some 1), DoCreate (Some 2), DoCreate (Some 3)]"

definition three_requests :: "nat call list" where
  "three_requests = [DoSetActive 0 False, DoDelete 1, DoSetActive 2 False]"

definition two_ticks :: "nat call list" where
  "two_ticks = [DoUpdate, DoLateUpdate, DoSetActive 1 False, DoDelete 0, DoUpdate, DoLateUpdate,
                DoSetActive 1 True, DoUpdate, DoLateUpdate]"

definition sleep_twice_calls :: "nat call list" where
  "sleep_twice_calls =
     [DoCreate (Some 1), DoCreate (Some 2), DoCreate (Some 3),
      DoSetActive 2 False, DoLateUpdate, DoSetActive 0 False, DoLateUpdate]"

definition sleep_thrice_calls :: "nat call list" where
  "sleep_thrice_calls = sleep_twice_calls @ [DoSetActive 1 False, DoLateUpdate]"

text \<open>
  A store whose first control block has been through \<open>g\<close> destructions: \<open>cycle\<close> creates a
  record, deletes it and applies the deletion, and the store is as before but for the tag
  of the block (and, after the first cycle, the table entry the record has left behind).
\<close>

definition worn_pool :: "size_t \<Rightarrow> nat ComponentPool" where
  "worn_pool g =
     \<lparr>control_block_pool =
        \<lparr>pool_head = Elem 0,
         mem = (mem (CRCBPool MAX_COMPONENTS blank_memory))
                 (Elem 0 := \<lparr>next = Elem 1, component = None, tag = g, flags = 0\<rparr>)\<rparr>,
      components = (\<lambda>i. None),
      control_table = (\<lambda>i. Null)(0 := Elem 0),
      pending_changes_head = Null,
      num_active_components = 0,
      num_sleeping_components = 0\<rparr>"

definition cycle :: "nat ComponentPool \<Rightarrow> nat ComponentPool option" where
  "cycle p =
     (case Create (Some 0) p of
        Returned r p1 \<Rightarrow>
          (case Delete r p1 of
             Returned u p2 \<Rightarrow>
               (case LateUpdate p2 of
                  Some (Returned tr p3) \<Rightarrow> Some p3
                | _ \<Rightarrow> None)
           | _ \<Rightarrow> None)
      | _ \<Rightarrow> None)"

primrec cycles :: "nat \<Rightarrow> nat ComponentPool \<Rightarrow> nat ComponentPool option" where
  "cycles 0 p = Some p"
| "cycles (Suc n) p = Option.bind (cycles n p) cycle"

section \<open>The flags\<close>

lemma flag_bit0: "(f AND (1::FlagType) \<noteq> 0) = bit f 0"
  by (simp add: and_one_eq bit_0 mod2_eq_if)
lemma flag_bit1: "(f AND (2::FlagType) \<noteq> 0) = bit f 1"
  using and_exp_eq_0_iff_not_bit [of f 1] by simp
lemma flag_bit2: "(f AND (4::FlagType) \<noteq> 0) = bit f 2"
  using and_exp_eq_0_iff_not_bit [of f 2] by simp
lemma flag_bit3: "(f AND (8::FlagType) \<noteq> 0) = bit f 3"
  using and_exp_eq_0_iff_not_bit [of f 3] by simp
lemma bit_flag1: "bit (1::FlagType) n = (n = 0)"
  by (simp add: bit_1_iff)
lemma bit_flag2: "bit (2::FlagType) n = (n = 1)"
  using bit_exp_iff [where 'a = FlagType, of 1 n] by auto
lemma bit_flag4: "bit (4::FlagType) n = (n = 2)"
  using bit_exp_iff [where 'a = FlagType, of 2 n] by auto
lemma bit_flag8: "bit (8::FlagType) n = (n = 3)"
  using bit_exp_iff [where 'a = FlagType, of 3 n] by auto

lemmas flag_tests = IsComponentActive_def IsPendingChanges_def IsPendingActiveStateChange_def
  GetPendingActiveStateChange_def IsPendingDeletion_def IS_ACTIVE_def PENDING_ACTIVE_def
  PENDING_SLEEP_def PENDING_DELETE_def flag_bit0 flag_bit1 flag_bit2 flag_bit3

lemmas flag_writes = SetComponentActive_def MarkActiveStateChange_def ClearPendingChanges_def
  MarkForDeletion_def construct_def destruct_def Let_def bit_simps bit_flag1 bit_flag2 bit_flag4
  bit_flag8

lemma IsPendingChanges_iff:
  "IsPendingChanges b = (IsPendingActiveStateChange b \<or> IsPendingDeletion b)"
  by (auto simp: flag_tests)

lemma GetPending_imp: "GetPendingActiveStateChange b \<Longrightarrow> IsPendingActiveStateChange b"
  by (simp add: flag_tests)

lemma SetComponentActive_tests [simp]:
  "IsComponentActive (SetComponentActive v b) = v"
  "IsPendingDeletion (SetComponentActive v b) = IsPendingDeletion b"
  "IsPendingActiveStateChange (SetComponentActive v b) = IsPendingActiveStateChange b"
  "GetPendingActiveStateChange (SetComponentActive v b) = GetPendingActiveStateChange b"
  "IsPendingChanges (SetComponentActive v b) = IsPendingChanges b"
  by (simp_all add: flag_tests flag_writes)

lemma SetComponentActive_fields [simp]:
  "next (SetComponentActive v b) = next b"
  "tag (SetComponentActive v b) = tag b"
  "component (SetComponentActive v b) = component b"
  by (simp_all add: SetComponentActive_def Let_def)

lemma keep_active_flag:
  assumes "bit f 0 = v"
  shows "(f AND NOT 1) OR (if v then 1 else 0) = (f::FlagType)"
proof (rule bit_word_eqI)
  fix n
  assume "n < LENGTH(8)"
  then show "bit ((f AND NOT 1) OR (if v then 1 else 0)) n = bit f n"
    using assms by (cases n) (auto simp: bit_simps bit_flag1)
qed

lemma SetComponentActive_same:
  "IsComponentActive b = v \<Longrightarrow> SetComponentActive v b = b"
  using keep_active_flag [of "flags b" v]
  by (cases v) (simp_all add: IsComponentActive_def IS_ACTIVE_def flag_bit0 SetComponentActive_def)

lemma MarkActiveStateChange_tests [simp]:
  "IsComponentActive (MarkActiveStateChange v b) = IsComponentActive b"
  "IsPendingDeletion (MarkActiveStateChange v b) = IsPendingDeletion b"
  "IsPendingActiveStateChange (MarkActiveStateChange v b)"
  "GetPendingActiveStateChange (MarkActiveStateChange v b) = (v \<or> GetPendingActiveStateChange b)"
  "IsPendingChanges (MarkActiveStateChange v b)"
  by (simp_all add: flag_tests flag_writes)

lemma MarkActiveStateChange_fields [simp]:
  "next (MarkActiveStateChange v b) = next b"
  "tag (MarkActiveStateChange v b) = tag b"
  "component (MarkActiveStateChange v b) = component b"
  by (simp_all add: MarkActiveStateChange_def Let_def)

lemma MarkForDeletion_tests [simp]:
  "IsComponentActive (MarkForDeletion b) = IsComponentActive b"
  "IsPendingDeletion (MarkForDeletion b)"
  "IsPendingActiveStateChange (MarkForDeletion b) = IsPendingActiveStateChange b"
  "GetPendingActiveStateChange (MarkForDeletion b) = GetPendingActiveStateChange b"
  "IsPendingChanges (MarkForDeletion b)"
  by (simp_all add: flag_tests flag_writes)

lemma MarkForDeletion_fields [simp]:
  "next (MarkForDeletion b) = next b"
  "tag (MarkForDeletion b) = tag b"
  "component (MarkForDeletion b) = component b"
  by (simp_all add: MarkForDeletion_def)

lemma ClearPendingChanges_tests [simp]:
  "IsComponentActive (ClearPendingChanges b) = IsComponentActive b"
  "\<not> IsPendingDeletion (ClearPendingChanges b)"
  "\<not> IsPendingActiveStateChange (ClearPendingChanges b)"
  "\<not> GetPendingActiveStateChange (ClearPendingChanges b)"
  "\<not> IsPendingChanges (ClearPendingChanges b)"
  by (simp_all add: flag_tests flag_writes)

lemma ClearPendingChanges_fields [simp]:
  "next (ClearPendingChanges b) = next b"
  "tag (ClearPendingChanges b) = tag b"
  "component (ClearPendingChanges b) = component b"
  by (simp_all add: ClearPendingChanges_def)

lemma construct_tests [simp]:
  "IsComponentActive (construct c b)"
  "\<not> IsPendingDeletion (construct c b)"
  "\<not> IsPendingActiveStateChange (construct c b)"
  "\<not> GetPendingActiveStateChange (construct c b)"
  "\<not> IsPendingChanges (construct c b)"
  by (simp_all add: flag_tests flag_writes)

lemma construct_fields [simp]:
  "next (construct c b) = Null"
  "tag (construct c b) = tag b"
  "component (construct c b) = c"
  by (simp_all add: construct_def)

lemma destruct_tests [simp]:
  "\<not> IsComponentActive (destruct b)"
  "\<not> IsPendingDeletion (destruct b)"
  "\<not> IsPendingActiveStateChange (destruct b)"
  "\<not> GetPendingActiveStateChange (destruct b)"
  "\<not> IsPendingChanges (destruct b)"
  by (simp_all add: flag_tests flag_writes)

lemma destruct_fields [simp]:
  "next (destruct b) = Null"
  "tag (destruct b) = tag b + 1"
  "component (destruct b) = None"
  "flags (destruct b) = 0"
  by (simp_all add: destruct_def)

lemma next_update_tests [simp]:
  "IsComponentActive (b\<lparr>next := x\<rparr>) = IsComponentActive b"
  "IsPendingDeletion (b\<lparr>next := x\<rparr>) = IsPendingDeletion b"
  "IsPendingActiveStateChange (b\<lparr>next := x\<rparr>) = IsPendingActiveStateChange b"
  "GetPendingActiveStateChange (b\<lparr>next := x\<rparr>) = GetPendingActiveStateChange b"
  "IsPendingChanges (b\<lparr>next := x\<rparr>) = IsPendingChanges b"
  "IsComponentActive (b\<lparr>component := y\<rparr>) = IsComponentActive b"
  "IsPendingDeletion (b\<lparr>component := y\<rparr>) = IsPendingDeletion b"
  "IsPendingActiveStateChange (b\<lparr>component := y\<rparr>) = IsPendingActiveStateChange b"
  "GetPendingActiveStateChange (b\<lparr>component := y\<rparr>) = GetPendingActiveStateChange b"
  "IsPendingChanges (b\<lparr>component := y\<rparr>) = IsPendingChanges b"
  by (simp_all add: flag_tests)

section \<open>The block pool\<close>

lemma IsPointerValid_iff:
  "IsPointerValid N ptr = (\<exists>k. ptr = Elem k \<and> 0 \<le> k \<and> k < int N)"
  by (cases ptr) (auto simp: IsPointerValid_def)

lemma link_pool_apply:
  "link_pool n m ptr =
     (case ptr of
        Elem k \<Rightarrow> if 0 \<le> k \<and> k < int n then (m ptr)\<lparr>next := Elem (k + 1)\<rparr> else m ptr
      | _ \<Rightarrow> m ptr)"
  by (induction n) (auto simp: Let_def split: crcb_ptr.splits)

lemma pool_head_CRCBPool: "pool_head (CRCBPool N outside) = Elem 0"
  by (simp add: CRCBPool_def)

lemma mem_CRCBPool:
  "mem (CRCBPool N outside) ptr =
     (case ptr of
        Elem k \<Rightarrow>
          if 0 \<le> k \<and> k < int N
          then ComponentReferenceControlBlock
                 \<lparr>next := if k < int (N - 1) then Elem (k + 1) else Null\<rparr>
          else outside ptr
      | _ \<Rightarrow> outside ptr)"
  by (auto simp: CRCBPool_def link_pool_apply ComponentReferenceControlBlock_def
      split: crcb_ptr.splits)

section \<open>What the internal functions change\<close>

lemma flags_writes:
  "flags (SetComponentActive v b) = (flags b AND NOT IS_ACTIVE) OR (if v then IS_ACTIVE else 0)"
  "flags (ClearPendingChanges b) = flags b AND NOT (PENDING_ACTIVE OR PENDING_SLEEP OR PENDING_DELETE)"
  "flags (MarkForDeletion b) = flags b OR PENDING_DELETE"
  "flags (MarkActiveStateChange v b) = flags b OR (if v then PENDING_ACTIVE else PENDING_SLEEP)"
  by (simp_all add: SetComponentActive_def ClearPendingChanges_def MarkForDeletion_def
      MarkActiveStateChange_def Let_def)

lemma block_update_block [simp]:
  "block (update_block q f p) b = (if b = q then f (block p q) else block p b)"
  by (simp add: block_def update_block_def)

lemma update_block_fields [simp]:
  "pending_changes_head (update_block q f p) = pending_changes_head p"
  "num_active_components (update_block q f p) = num_active_components p"
  "num_sleeping_components (update_block q f p) = num_sleeping_components p"
  "components (update_block q f p) = components p"
  "control_table (update_block q f p) = control_table p"
  "pool_head (control_block_pool (update_block q f p)) = pool_head (control_block_pool p)"
  "Count (update_block q f p) = Count p"
  by (simp_all add: update_block_def Count_def)

lemma block_other_fields [simp]:
  "block (p\<lparr>pending_changes_head := h\<rparr>) = block p"
  "block (p\<lparr>num_active_components := a\<rparr>) = block p"
  "block (p\<lparr>num_sleeping_components := s\<rparr>) = block p"
  "block (p\<lparr>components := cs\<rparr>) = block p"
  "block (p\<lparr>control_table := ct\<rparr>) = block p"
  "block (p\<lparr>control_block_pool := P\<rparr>) = mem P"
  by (simp_all add: block_def fun_eq_iff)

lemma Count_other_fields [simp]:
  "Count (p\<lparr>pending_changes_head := h\<rparr>) = Count p"
  "Count (p\<lparr>components := cs\<rparr>) = Count p"
  "Count (p\<lparr>control_table := ct\<rparr>) = Count p"
  "Count (p\<lparr>control_block_pool := P\<rparr>) = Count p"
  by (simp_all add: Count_def)

lemma SwapComponents_frame:
  assumes "SwapComponents l t p = Returned u p'"
  shows "next (block p' b) = next (block p b)"
    and "tag (block p' b) = tag (block p b)"
    and "flags (block p' b) = flags (block p b)"
    and "pending_changes_head p' = pending_changes_head p"
    and "pool_head (control_block_pool p') = pool_head (control_block_pool p)"
    and "num_active_components p' = num_active_components p"
    and "num_sleeping_components p' = num_sleeping_components p"
  using assms by (auto simp: SwapComponents_def Let_def split: if_splits)

lemma SwapComponents_Count:
  "SwapComponents l t p = Returned u p' \<Longrightarrow> Count p' = Count p"
  by (simp add: Count_def SwapComponents_frame)

lemma SwapComponents_not_Thrown [simp]: "SwapComponents l t p \<noteq> Thrown e p'"
  by (simp add: SwapComponents_def Let_def)

lemma SetActiveInternal_not_Thrown [simp]: "SetActiveInternal ctx v p \<noteq> Thrown e p'"
  by (auto simp: SetActiveInternal_def Let_def split: option.splits outcome.splits)

lemma DeleteInternal_not_Thrown [simp]: "DeleteInternal ctx p \<noteq> Thrown e p'"
  by (auto simp: DeleteInternal_def Let_def split: option.splits outcome.splits)

lemma SetActiveInternal_frame:
  assumes "SetActiveInternal ctx v p = Returned u p'"
  shows "next (block p' b) = next (block p b)"
    and "tag (block p' b) = tag (block p b)"
    and "flags (block p' b) = flags (if b = ctx then SetComponentActive v (block p ctx) else block p b)"
    and "pending_changes_head p' = pending_changes_head p"
    and "pool_head (control_block_pool p') = pool_head (control_block_pool p)"
proof -
  show "next (block p' b) = next (block p b)"
    and "tag (block p' b) = tag (block p b)"
    and "pending_changes_head p' = pending_changes_head p"
    and "pool_head (control_block_pool p') = pool_head (control_block_pool p)"
    using assms
    by (auto simp: SetActiveInternal_def Let_def SwapComponents_frame
        split: if_splits option.splits outcome.splits)
  show "flags (block p' b) = flags (if b = ctx then SetComponentActive v (block p ctx) else block p b)"
  proof (cases "v = IsComponentActive (block p ctx)")
    case True
    with assms have "p' = p"
      by (simp add: SetActiveInternal_def)
    with True show ?thesis
      by (simp add: SetComponentActive_same)
  next
    case False
    with assms show ?thesis
      by (auto simp: SetActiveInternal_def Let_def SwapComponents_frame flags_writes
          split: if_splits option.splits outcome.splits)
  qed
qed

lemma SetActiveInternal_counts:
  assumes "SetActiveInternal ctx v p = Returned u p'"
  shows "num_sleeping_components p' =
           (if IsComponentActive (block p ctx) = v then num_sleeping_components p
            else if v then num_sleeping_components p - 1 else num_sleeping_components p + 1)"
    and "num_active_components p' =
           (if IsComponentActive (block p ctx) = v then num_active_components p
            else if v then num_active_components p + 1 else num_active_components p - 1)"
    and "Count p' = Count p"
  using assms
  by (auto simp: SetActiveInternal_def Let_def SwapComponents_frame Count_def
      split: if_splits option.splits outcome.splits)

lemma DeleteInternal_frame:
  assumes "DeleteInternal ctx p = Returned u p'"
  shows "next (block p' b) = next (block p b)"
    and "tag (block p' b) = tag (block p b)"
    and "flags (block p' b) = flags (if b = ctx then SetComponentActive True (block p ctx) else block p b)"
    and "pending_changes_head p' = pending_changes_head p"
    and "pool_head (control_block_pool p') = pool_head (control_block_pool p)"
  using assms
  by (auto simp: DeleteInternal_def Let_def SwapComponents_frame SetActiveInternal_frame
      split: if_splits option.splits outcome.splits)

lemma DeleteInternal_cases:
  assumes "DeleteInternal ctx p = Returned u p'"
  obtains p1 c p2 where
    "SetActiveInternal ctx True p = Returned () p1"
    "component (block p1 ctx) = Some c"
    "SwapComponents (word_of_int (c - 0)) (Count p1 - 1) p1 = Returned () p2"
    "unat (Count p1 - 1) < MAX_COMPONENTS"
    "p' = p2\<lparr>components := (components p2)(unat (Count p1 - 1) := None),
              num_active_components := num_active_components p2 - 1\<rparr>"
  using assms
  by (auto simp: DeleteInternal_def Let_def split: if_splits option.splits outcome.splits)

lemma DeleteInternal_counts:
  assumes "DeleteInternal ctx p = Returned u p'"
  shows "num_sleeping_components p' =
           (if IsComponentActive (block p ctx) then num_sleeping_components p
            else num_sleeping_components p - 1)"
    and "num_active_components p' =
           (if IsComponentActive (block p ctx) then num_active_components p - 1
            else num_active_components p)"
    and "Count p' = Count p - 1"
    and "unat (Count p') < MAX_COMPONENTS"
    and "components p' (unat (Count p')) = None"
proof -
  from assms obtain p1 c p2 where
    1: "SetActiveInternal ctx True p = Returned () p1" and
    2: "SwapComponents (word_of_int (c - 0)) (Count p1 - 1) p1 = Returned () p2" and
    3: "unat (Count p1 - 1) < MAX_COMPONENTS" and
    4: "p' = p2\<lparr>components := (components p2)(unat (Count p1 - 1) := None),
              num_active_components := num_active_components p2 - 1\<rparr>"
    by (rule DeleteInternal_cases)
  have c1: "Count p1 = Count p"
    using 1 by (rule SetActiveInternal_counts)
  have s2: "num_sleeping_components p2 = num_sleeping_components p1"
    and a2: "num_active_components p2 = num_active_components p1"
    using 2 by (rule SwapComponents_frame)+
  show "num_sleeping_components p' =
           (if IsComponentActive (block p ctx) then num_sleeping_components p
            else num_sleeping_components p - 1)"
    using 4 s2 SetActiveInternal_counts(1) [OF 1] by simp
  show "num_active_components p' =
           (if IsComponentActive (block p ctx) then num_active_components p - 1
            else num_active_components p)"
    using 4 a2 SetActiveInternal_counts(2) [OF 1] by simp
  show c': "Count p' = Count p - 1"
    using 4 s2 a2 c1 by (simp add: Count_def)
  show "unat (Count p') < MAX_COMPONENTS"
    using 3 c1 c' by simp
  show "components p' (unat (Count p')) = None"
    using 4 c1 c' by simp
qed

lemma mem_control_block_pool [simp]: "mem (control_block_pool p) = block p"
  by (simp add: block_def fun_eq_iff)

lemma flag_tests_cong:
  assumes "flags b = flags b'"
  shows "IsComponentActive b = IsComponentActive b'"
    and "IsPendingDeletion b = IsPendingDeletion b'"
    and "IsPendingActiveStateChange b = IsPendingActiveStateChange b'"
    and "GetPendingActiveStateChange b = GetPendingActiveStateChange b'"
    and "IsPendingChanges b = IsPendingChanges b'"
  using assms
  by (simp_all add: IsComponentActive_def IsPendingDeletion_def IsPendingActiveStateChange_def
      GetPendingActiveStateChange_def IsPendingChanges_def)

lemma SetActiveInternal_tests:
  assumes "SetActiveInternal ctx v p = Returned u p'"
  shows "IsComponentActive (block p' b) = (if b = ctx then v else IsComponentActive (block p b))"
    and "IsPendingDeletion (block p' b) = IsPendingDeletion (block p b)"
    and "IsPendingActiveStateChange (block p' b) = IsPendingActiveStateChange (block p b)"
    and "GetPendingActiveStateChange (block p' b) = GetPendingActiveStateChange (block p b)"
    and "IsPendingChanges (block p' b) = IsPendingChanges (block p b)"
  using flag_tests_cong [OF SetActiveInternal_frame(3) [OF assms, of b]]
  by simp_all

lemma DeleteInternal_tests:
  assumes "DeleteInternal ctx p = Returned u p'"
  shows "IsComponentActive (block p' b) = (if b = ctx then True else IsComponentActive (block p b))"
    and "IsPendingDeletion (block p' b) = IsPendingDeletion (block p b)"
    and "IsPendingActiveStateChange (block p' b) = IsPendingActiveStateChange (block p b)"
    and "GetPendingActiveStateChange (block p' b) = GetPendingActiveStateChange (block p b)"
    and "IsPendingChanges (block p' b) = IsPendingChanges (block p b)"
  using flag_tests_cong [OF DeleteInternal_frame(3) [OF assms, of b]]
  by simp_all

lemma apply_pending_cases:
  assumes "apply_pending c p = Returned u p'"
  obtains
    (deleted) p1 where "IsPendingDeletion (block p c)" "DeleteInternal c p = Returned () p1"
      "IsPointerValid MAX_COMPONENTS c"
      "p' = p1\<lparr>control_block_pool :=
               (control_block_pool p1)
                 \<lparr>mem := (block p1)
                           (c := (destruct (block p1 c))\<lparr>next := pool_head (control_block_pool p1)\<rparr>),
                  pool_head := c\<rparr>\<rparr>"
  | (changed) p1 where "\<not> IsPendingDeletion (block p c)" "IsPendingActiveStateChange (block p c)"
      "SetActiveInternal c (GetPendingActiveStateChange (block p c)) p = Returned () p1"
      "p' = update_block c ClearPendingChanges p1"
  | (idle) "\<not> IsPendingDeletion (block p c)" "\<not> IsPendingActiveStateChange (block p c)" "p' = p"
  using assms
  by (auto simp: apply_pending_def Deallocate_def Destroy_def
      split: if_splits outcome.splits)


lemma apply_pending_frame:
  assumes "apply_pending c p = Returned u p'"
  shows "pending_changes_head p' = pending_changes_head p \<and>
     (b \<noteq> c \<longrightarrow> next (block p' b) = next (block p b) \<and> tag (block p' b) = tag (block p b)
        \<and> flags (block p' b) = flags (block p b))"
  using assms
proof (cases rule: apply_pending_cases)
  case (deleted p1)
  then show ?thesis
    by (simp add: DeleteInternal_frame)
next
  case (changed p1)
  then show ?thesis
    by (simp add: SetActiveInternal_frame)
next
  case idle
  then show ?thesis by simp
qed

lemma apply_pending_deleted:
  assumes "apply_pending c p = Returned u p'" and "IsPendingDeletion (block p c)"
  shows "tag (block p' c) = tag (block p c) + 1 \<and>
     flags (block p' c) = 0 \<and>
     component (block p' c) = None \<and>
     next (block p' c) = pool_head (control_block_pool p) \<and>
     pool_head (control_block_pool p') = c \<and>
     IsPointerValid MAX_COMPONENTS c \<and>
     Count p' = Count p - 1 \<and>
     unat (Count p') < MAX_COMPONENTS \<and>
     components p' (unat (Count p')) = None \<and>
     num_sleeping_components p' =
       (if IsComponentActive (block p c) then num_sleeping_components p
        else num_sleeping_components p - 1) \<and>
     num_active_components p' =
       (if IsComponentActive (block p c) then num_active_components p - 1
        else num_active_components p)"
  using assms(1)
proof (cases rule: apply_pending_cases)
  case (deleted p1)
  then show ?thesis
    using DeleteInternal_counts [OF deleted(2)]
    by (simp add: DeleteInternal_frame Count_def)
next
  case (changed p1)
  with assms(2) show ?thesis by simp
next
  case idle
  with assms(2) show ?thesis by simp
qed

lemma apply_pending_kept:
  assumes "apply_pending c p = Returned u p'" and "\<not> IsPendingDeletion (block p c)"
  shows "tag (block p' c) = tag (block p c) \<and>
     next (block p' c) = next (block p c) \<and>
     \<not> IsPendingChanges (block p' c) \<and>
     IsComponentActive (block p' c) =
       (if IsPendingActiveStateChange (block p c) then GetPendingActiveStateChange (block p c)
        else IsComponentActive (block p c)) \<and>
     pool_head (control_block_pool p') = pool_head (control_block_pool p)"
  using assms(1)
proof (cases rule: apply_pending_cases)
  case (deleted p1)
  with assms(2) show ?thesis by simp
next
  case (changed p1)
  then show ?thesis
    by (simp add: SetActiveInternal_frame SetActiveInternal_tests IsPendingChanges_iff)
next
  case idle
  then show ?thesis
    by (simp add: IsPendingChanges_iff)
qed

section \<open>The loop of LateUpdate\<close>

lemma LateUpdate_Null:
  "pending_changes_head p = Null \<Longrightarrow> LateUpdate p = Some (Returned [] p)"
  by (subst LateUpdate.simps) simp

lemma LateUpdate_pop:
  assumes "pending_changes_head p \<noteq> Null"
  shows "LateUpdate p =
     (case apply_pending (pending_changes_head p)
             (p\<lparr>pending_changes_head := next (block p (pending_changes_head p))\<rparr>) of
        Returned u p2 \<Rightarrow>
          Option.bind (LateUpdate p2)
            (\<lambda>r. case r of
                   Returned cs p3 \<Rightarrow> Some (Returned (pending_changes_head p # cs) p3)
                 | Thrown e p3 \<Rightarrow> Some (Thrown e p3)
                 | Undefined \<Rightarrow> Some Undefined)
      | Thrown e p2 \<Rightarrow> Some (Thrown e p2)
      | Undefined \<Rightarrow> Some Undefined)"
  using assms by (subst LateUpdate.simps) (simp add: Let_def)

lemma LateUpdate_Returned_pop:
  assumes "LateUpdate p = Some (Returned tr p')" and "pending_changes_head p \<noteq> Null"
  obtains p2 tr' where
    "apply_pending (pending_changes_head p)
       (p\<lparr>pending_changes_head := next (block p (pending_changes_head p))\<rparr>) = Returned () p2"
    "LateUpdate p2 = Some (Returned tr' p')"
    "tr = pending_changes_head p # tr'"
  using assms
  by (auto simp: LateUpdate_pop split: outcome.splits Option.bind_splits)

lemma kept_refl: "kept b p p"
  by (simp add: kept_def)

lemma kept_trans: "kept b p p1 \<Longrightarrow> kept b p1 p2 \<Longrightarrow> kept b p p2"
  using flag_tests_cong(5) [of "block p1 b" "block p b"]
  by (auto simp: kept_def)

lemma kept_head [simp]: "kept b (p\<lparr>pending_changes_head := h\<rparr>) p' = kept b p p'"
  by (simp add: kept_def)

lemma apply_pending_kept_all:
  assumes "apply_pending c p = Returned u p'"
  shows "kept b p p'"
proof (cases "b = c")
  case False
  with apply_pending_frame [OF assms, of b] show ?thesis
    using flag_tests_cong(2) [of "block p' b" "block p b"] by (simp add: kept_def)
next
  case True
  show ?thesis
    unfolding kept_def
  proof (intro impI conjI)
    assume nd: "\<not> IsPendingDeletion (block p b)"
    with True apply_pending_kept [OF assms] 
    show "tag (block p' b) = tag (block p b)" "\<not> IsPendingDeletion (block p' b)"
      by (simp_all add: IsPendingChanges_iff)
    assume np: "\<not> IsPendingChanges (block p b)"
    with True have "p' = p"
      using assms by (auto elim: apply_pending_cases simp: IsPendingChanges_iff)
    then show "flags (block p' b) = flags (block p b)" "next (block p' b) = next (block p b)"
      by simp_all
  qed
qed

lemma LateUpdate_kept:
  assumes "LateUpdate p = Some (Returned tr p')"
  shows "kept b p p'"
proof -
  define P where "P = (\<lambda>(p :: 'a ComponentPool) (r :: (crcb_ptr list, 'a ComponentPool) outcome).
      \<forall>tr p'. r = Returned tr p' \<longrightarrow> kept b p p')"
  have "P p (Returned tr p')"
    using assms
  proof (rule LateUpdate.raw_induct [rotated 1, where P = P])
    fix LU :: "'a ComponentPool \<Rightarrow> (crcb_ptr list, 'a ComponentPool) outcome option"
    fix p r
    assume IH: "\<And>x y. LU x = Some y \<Longrightarrow> P x y"
    assume eq: "(if pending_changes_head p \<noteq> Null
      then let control = pending_changes_head p;
               p1 = p\<lparr>pending_changes_head := next (block p (pending_changes_head p))\<rparr>
           in case apply_pending control p1 of
              Returned u p2 \<Rightarrow>
                Option.bind (LU p2)
                 (\<lambda>r. case r of
                      Returned cs p3 \<Rightarrow> Some (Returned (control # cs) p3)
                      | Thrown e p3 \<Rightarrow> Some (Thrown e p3)
                      | Undefined \<Rightarrow> Some Undefined)
              | Thrown e p2 \<Rightarrow> Some (Thrown e p2)
              | Undefined \<Rightarrow> Some Undefined
      else Some (Returned [] p)) = Some r"
    show "P p r"
      unfolding P_def
    proof (intro allI impI)
      fix tr p'
      assume r: "r = Returned tr p'"
      show "kept b p p'"
      proof (cases "pending_changes_head p = Null")
        case True
        with eq r show ?thesis by (simp add: kept_refl)
      next
        case False
        let ?c = "pending_changes_head p"
        let ?p1 = "p\<lparr>pending_changes_head := next (block p ?c)\<rparr>"
        from eq r False obtain p2 tr' where
          a: "apply_pending ?c ?p1 = Returned () p2" and l: "LU p2 = Some (Returned tr' p')"
          by (auto simp: Let_def split: outcome.splits Option.bind_splits)
        from IH [OF l] have "kept b p2 p'"
          by (simp add: P_def)
        moreover from apply_pending_kept_all [OF a] have "kept b p p2"
          by simp
        ultimately show ?thesis
          by (rule kept_trans [rotated])
      qed
    qed
  qed
  then show ?thesis
    by (simp add: P_def)
qed

lemma lseg_frame:
  "\<forall>x\<in>set xs. next (m' x) = next (m x) \<Longrightarrow> lseg m' h xs e = lseg m h xs e"
  by (induction xs arbitrary: h) auto

lemma lseg_append:
  "lseg m h (xs @ ys) e = (\<exists>k. lseg m h xs k \<and> lseg m k ys e)"
  by (induction xs arbitrary: h) auto

lemma flags_zero_tests:
  assumes "flags b = 0"
  shows "\<not> IsComponentActive b" "\<not> IsPendingDeletion b" "\<not> IsPendingActiveStateChange b"
    "\<not> GetPendingActiveStateChange b" "\<not> IsPendingChanges b"
  using assms
  by (simp_all add: IsComponentActive_def IsPendingDeletion_def IsPendingActiveStateChange_def
      GetPendingActiveStateChange_def IsPendingChanges_def)

lemma LateUpdate_segment:
  assumes "lseg (block p) (pending_changes_head p) xs e" and "distinct xs"
    and "LateUpdate p = Some (Returned tr p')"
  shows "\<exists>q tr1. pending_changes_head q = e \<and> LateUpdate q = Some (Returned tr1 p') \<and>
           tr = xs @ tr1 \<and>
           (\<forall>b. b \<notin> set xs \<longrightarrow> next (block q b) = next (block p b) \<and>
                 tag (block q b) = tag (block p b) \<and> flags (block q b) = flags (block p b))"
  using assms
proof (induction xs arbitrary: p tr)
  case Nil
  then show ?case by auto
next
  case (Cons x xs)
  let ?p1 = "p\<lparr>pending_changes_head := next (block p x)\<rparr>"
  from Cons.prems(1) have hd: "pending_changes_head p = x" "x \<noteq> Null"
    and rest: "lseg (block p) (next (block p x)) xs e"
    by simp_all
  from Cons.prems(3) hd obtain p2 tr' where
    a: "apply_pending x ?p1 = Returned () p2" and
    l: "LateUpdate p2 = Some (Returned tr' p')" and
    tr: "tr = x # tr'"
    by (auto elim: LateUpdate_Returned_pop)
  have fr: "b \<noteq> x \<Longrightarrow> next (block p2 b) = next (block p b) \<and>
      tag (block p2 b) = tag (block p b) \<and> flags (block p2 b) = flags (block p b)" for b
    using apply_pending_frame [OF a, of b] by simp
  have h2: "pending_changes_head p2 = next (block p x)"
    using apply_pending_frame [OF a, of x] by simp
  from Cons.prems(2) have "\<forall>y\<in>set xs. next (block p2 y) = next (block p y)"
    using fr by (metis distinct.simps(2))
  with rest h2 have "lseg (block p2) (pending_changes_head p2) xs e"
    using lseg_frame [of xs "block p2" "block p"] by simp
  from Cons.IH [OF this _ l] Cons.prems(2) obtain q tr1 where
    q: "pending_changes_head q = e" "LateUpdate q = Some (Returned tr1 p')" "tr' = xs @ tr1"
      "\<forall>b. b \<notin> set xs \<longrightarrow> next (block q b) = next (block p2 b) \<and>
                 tag (block q b) = tag (block p2 b) \<and> flags (block q b) = flags (block p2 b)"
    by auto
  show ?case
  proof (intro exI conjI)
    show "pending_changes_head q = e" by fact
    show "LateUpdate q = Some (Returned tr1 p')" by fact
    show "tr = (x # xs) @ tr1" using tr q(3) by simp
    show "\<forall>b. b \<notin> set (x # xs) \<longrightarrow> next (block q b) = next (block p b) \<and>
                 tag (block q b) = tag (block p b) \<and> flags (block q b) = flags (block p b)"
      using q(4) fr by auto
  qed
qed

lemma LateUpdate_list:
  assumes "lseg (block p) (pending_changes_head p) xs Null" and "distinct xs"
  shows "\<exists>r. LateUpdate p = Some r \<and>
           (\<forall>tr p'. r = Returned tr p' \<longrightarrow> tr = xs \<and> pending_changes_head p' = Null)"
  using assms
proof (induction xs arbitrary: p)
  case Nil
  then show ?case by (simp add: LateUpdate_Null)
next
  case (Cons x xs)
  let ?p1 = "p\<lparr>pending_changes_head := next (block p x)\<rparr>"
  from Cons.prems(1) have hd: "pending_changes_head p = x" "x \<noteq> Null"
    and rest: "lseg (block p) (next (block p x)) xs Null"
    by simp_all
  show ?case
  proof (cases "apply_pending x ?p1")
    case (Returned u p2)
    have fr: "b \<noteq> x \<Longrightarrow> next (block p2 b) = next (block p b)" for b
      using apply_pending_frame [OF Returned, of b] by simp
    have h2: "pending_changes_head p2 = next (block p x)"
      using apply_pending_frame [OF Returned, of x] by simp
    from Cons.prems(2) have "\<forall>y\<in>set xs. next (block p2 y) = next (block p y)"
      using fr by (metis distinct.simps(2))
    with rest h2 have "lseg (block p2) (pending_changes_head p2) xs Null"
      using lseg_frame [of xs "block p2" "block p"] by simp
    from Cons.IH [OF this] Cons.prems(2) obtain r2 where
      r2: "LateUpdate p2 = Some r2"
        "\<forall>tr p'. r2 = Returned tr p' \<longrightarrow> tr = xs \<and> pending_changes_head p' = Null"
      by auto
    with Returned hd show ?thesis
      by (cases r2) (simp_all add: LateUpdate_pop)
  next
    case (Thrown e p2)
    with hd show ?thesis by (simp add: LateUpdate_pop)
  next
    case Undefined
    with hd show ?thesis by (simp add: LateUpdate_pop)
  qed
qed

lemma LateUpdate_deleted:
  assumes "queued p c" and "IsPendingDeletion (block p c)"
    and "LateUpdate p = Some (Returned tr p')"
  shows "tag (block p' c) = tag (block p c) + 1 \<and> flags (block p' c) = 0"
proof -
  from assms(1) obtain xs e where
    seg: "lseg (block p) (pending_changes_head p) (xs @ [c]) e" and d: "distinct (xs @ [c])"
    by (auto simp: queued_def)
  from seg have s1: "lseg (block p) (pending_changes_head p) xs c" and c: "c \<noteq> Null"
    by (auto simp: lseg_append)
  from d have d1: "distinct xs" and nin: "c \<notin> set xs" by auto
  from LateUpdate_segment [OF s1 d1 assms(3)] nin obtain q tr1 where
    q: "pending_changes_head q = c" "LateUpdate q = Some (Returned tr1 p')"
      "tag (block q c) = tag (block p c)" "flags (block q c) = flags (block p c)"
    by auto
  let ?q1 = "q\<lparr>pending_changes_head := next (block q c)\<rparr>"
  from q(1,2) c obtain q2 tr2 where
    a: "apply_pending c ?q1 = Returned () q2" and l: "LateUpdate q2 = Some (Returned tr2 p')"
    by (auto elim: LateUpdate_Returned_pop)
  from q(4) assms(2) have "IsPendingDeletion (block ?q1 c)"
    using flag_tests_cong(2) [of "block q c" "block p c"] by simp
  from apply_pending_deleted [OF a this] q(3)
  have t2: "tag (block q2 c) = tag (block p c) + 1" and f2: "flags (block q2 c) = 0"
    by simp_all
  from LateUpdate_kept [OF l, of c] f2 t2 show ?thesis
    by (simp add: kept_def flags_zero_tests)
qed

lemma LateUpdate_changed:
  assumes "queued p c" and "\<not> IsPendingDeletion (block p c)"
    and "LateUpdate p = Some (Returned tr p')"
  shows "tag (block p' c) = tag (block p c) \<and> \<not> IsPendingChanges (block p' c) \<and>
         IsComponentActive (block p' c) =
           (if IsPendingActiveStateChange (block p c) then GetPendingActiveStateChange (block p c)
            else IsComponentActive (block p c))"
proof -
  from assms(1) obtain xs e where
    seg: "lseg (block p) (pending_changes_head p) (xs @ [c]) e" and d: "distinct (xs @ [c])"
    by (auto simp: queued_def)
  from seg have s1: "lseg (block p) (pending_changes_head p) xs c" and c: "c \<noteq> Null"
    by (auto simp: lseg_append)
  from d have d1: "distinct xs" and nin: "c \<notin> set xs" by auto
  from LateUpdate_segment [OF s1 d1 assms(3)] nin obtain q tr1 where
    q: "pending_changes_head q = c" "LateUpdate q = Some (Returned tr1 p')"
      "tag (block q c) = tag (block p c)" "flags (block q c) = flags (block p c)"
    by auto
  let ?q1 = "q\<lparr>pending_changes_head := next (block q c)\<rparr>"
  from q(1,2) c obtain q2 tr2 where
    a: "apply_pending c ?q1 = Returned () q2" and l: "LateUpdate q2 = Some (Returned tr2 p')"
    by (auto elim: LateUpdate_Returned_pop)
  note fc = flag_tests_cong [of "block q c" "block p c", OF q(4)]
  from assms(2) fc have nd: "\<not> IsPendingDeletion (block ?q1 c)" by simp
  from apply_pending_kept [OF a nd] q(3) fc
  have k: "tag (block q2 c) = tag (block p c)" "\<not> IsPendingChanges (block q2 c)"
    "IsComponentActive (block q2 c) =
           (if IsPendingActiveStateChange (block p c) then GetPendingActiveStateChange (block p c)
            else IsComponentActive (block p c))"
    by simp_all
  from k(2) have "\<not> IsPendingDeletion (block q2 c)"
    by (simp add: IsPendingChanges_iff)
  with LateUpdate_kept [OF l, of c] k(2)
  have "tag (block p' c) = tag (block q2 c)" "flags (block p' c) = flags (block q2 c)"
    by (simp_all add: kept_def)
  with k flag_tests_cong [of "block p' c" "block q2 c"] show ?thesis
    by simp
qed

section \<open>The public functions\<close>

lemma unat_size_t_of_nat: "n < 2 ^ 64 \<Longrightarrow> unat (of_nat n :: size_t) = n"
  by (rule of_nat_inverse) simp_all

lemma size_t_of_nat_eq:
  assumes "n < 2 ^ 64" and "m < 2 ^ 64"
  shows "((of_nat n :: size_t) = of_nat m) = (n = m)"
proof
  assume "(of_nat n :: size_t) = of_nat m"
  then have "unat (of_nat n :: size_t) = unat (of_nat m :: size_t)"
    by (rule arg_cong)
  then show "n = m"
    by (simp only: unat_size_t_of_nat [OF assms(1)] unat_size_t_of_nat [OF assms(2)])
next
  assume "n = m"
  then show "(of_nat n :: size_t) = of_nat m"
    by (rule arg_cong)
qed

lemma created_fresh:
  assumes "n \<le> MAX_COMPONENTS"
  shows "num_active_components (created n c (ComponentPool outside)) = of_nat n \<and>
         num_sleeping_components (created n c (ComponentPool outside)) = 0 \<and>
         pool_head (control_block_pool (created n c (ComponentPool outside))) =
           (if n < MAX_COMPONENTS then Elem (int n) else Null) \<and>
         (\<forall>k. n \<le> k \<and> k < MAX_COMPONENTS \<longrightarrow>
            next (block (created n c (ComponentPool outside)) (Elem (int k))) =
              (if k < MAX_COMPONENTS - 1 then Elem (int k + 1) else Null))"
  using assms
proof (induction n)
  case 0
  show ?case
    by (simp add: ComponentPool_def pool_head_CRCBPool mem_CRCBPool block_def MAX_COMPONENTS_def
        flip: mem_control_block_pool)
next
  case (Suc n)
  let ?p = "created n c (ComponentPool outside)"
  from Suc have n: "n < MAX_COMPONENTS" and
    a: "num_active_components ?p = of_nat n" and s: "num_sleeping_components ?p = 0" and
    h: "pool_head (control_block_pool ?p) = Elem (int n)" and
    nx: "\<forall>k. n \<le> k \<and> k < MAX_COMPONENTS \<longrightarrow>
            next (block ?p (Elem (int k))) = (if k < MAX_COMPONENTS - 1 then Elem (int k + 1) else Null)"
    by simp_all
  from a s have cnt: "Count ?p = of_nat n" by (simp add: Count_def)
  from n have ne: "(of_nat n :: size_t) \<noteq> of_nat MAX_COMPONENTS"
    using size_t_of_nat_eq [of n MAX_COMPONENTS] by (simp add: MAX_COMPONENTS_def)
  from n have un: "unat (of_nat n :: size_t) = n"
    by (simp add: unat_size_t_of_nat MAX_COMPONENTS_def)
  from nx n have nxn: "next (block ?p (Elem (int n))) = (if n < MAX_COMPONENTS - 1 then Elem (int n + 1) else Null)"
    by simp
  have cr: "Create (Some c) ?p =
     Returned (reference_to (block (update_block (Elem (int n)) (construct (Some (int n))) ?p)) (Elem (int n)))
       ((update_block (Elem (int n)) (construct (Some (int n))) ?p)
          \<lparr>components := (components ?p)(n := Some c),
            control_block_pool := (control_block_pool (update_block (Elem (int n)) (construct (Some (int n))) ?p))
               \<lparr>pool_head := (if n < MAX_COMPONENTS - 1 then Elem (int n + 1) else Null)\<rparr>,
            control_table := (control_table ?p)(n := Elem (int n)),
            num_active_components := of_nat n + 1\<rparr>)"
    using n ne un nxn h a
    by (simp add: Create_def cnt Allocate_def Construct_def Let_def update_block_def)
  show ?case
    using nx n s by (auto simp add: cr MAX_COMPONENTS_def)
qed

lemma size_t_succ:
  "(x::size_t) + 1 \<noteq> x" "x \<noteq> - 1 \<Longrightarrow> x < x + 1"
  using inc_less_eq_self_iff_eq [of x] by (simp_all add: not_le)

lemma IsPointerValid_not_Null: "IsPointerValid N c \<Longrightarrow> c \<noteq> Null"
  by (auto simp: IsPointerValid_iff)

lemma queued_head:
  "pending_changes_head p = c \<Longrightarrow> c \<noteq> Null \<Longrightarrow> queued p c"
  unfolding queued_def
  by (rule exI [of _ "[]"]) simp

lemma queued_frame:
  assumes "queued p c" and "pending_changes_head p' = pending_changes_head p"
    and "\<forall>b. next (block p' b) = next (block p b)"
  shows "queued p' c"
proof -
  from assms(1) obtain xs e where
    "lseg (block p) (pending_changes_head p) (xs @ [c]) e" "distinct (xs @ [c])"
    by (auto simp: queued_def)
  with assms(2,3) lseg_frame [of "xs @ [c]" "block p'" "block p" "pending_changes_head p" e]
  show ?thesis
    by (auto simp: queued_def)
qed

lemma Delete_returns:
  assumes "IsValid (mem (control_block_pool p)) r"
    and "IsPointerValid MAX_COMPONENTS (context_ptr r)"
  shows "Delete r p =
           Returned () (update_block (context_ptr r) MarkForDeletion
             (if \<not> IsPendingChanges (block p (context_ptr r)) then push_pending (context_ptr r) p else p))"
  using assms by (simp add: Delete_def Let_def)

lemma push_pending_fields [simp]:
  "pending_changes_head (push_pending c p) = c"
  "block (push_pending c p) b = (if b = c then (block p c)\<lparr>next := pending_changes_head p\<rparr> else block p b)"
  "num_active_components (push_pending c p) = num_active_components p"
  "num_sleeping_components (push_pending c p) = num_sleeping_components p"
  "components (push_pending c p) = components p"
  "control_table (push_pending c p) = control_table p"
  "pool_head (control_block_pool (push_pending c p)) = pool_head (control_block_pool p)"
  by (simp_all add: push_pending_def)

lemma Delete_effect:
  assumes "IsValid (mem (control_block_pool p)) r"
    and "IsPointerValid MAX_COMPONENTS (context_ptr r)"
    and "IsPendingChanges (block p (context_ptr r)) \<longrightarrow> queued p (context_ptr r)"
    and "Delete r p = Returned u p1"
  shows "queued p1 (context_ptr r)" and "IsPendingDeletion (block p1 (context_ptr r))"
    and "tag (block p1 (context_ptr r)) = tag (block p (context_ptr r))"
    and "IsPendingActiveStateChange (block p1 (context_ptr r)) =
           IsPendingActiveStateChange (block p (context_ptr r))"
proof -
  let ?c = "context_ptr r"
  from assms(2) have c: "?c \<noteq> Null" by (rule IsPointerValid_not_Null)
  from assms(4) Delete_returns [OF assms(1,2)]
  have p1: "p1 = update_block ?c MarkForDeletion
             (if \<not> IsPendingChanges (block p ?c) then push_pending ?c p else p)"
    by simp
  show "queued p1 ?c"
  proof (cases "IsPendingChanges (block p ?c)")
    case True
    with assms(3) have "queued p ?c" by simp
    then show ?thesis
      by (rule queued_frame) (simp_all add: p1 True)
  next
    case False
    with c show ?thesis
      by (simp add: p1 queued_head)
  qed
  show "IsPendingDeletion (block p1 ?c)" "tag (block p1 ?c) = tag (block p ?c)"
    "IsPendingActiveStateChange (block p1 ?c) = IsPendingActiveStateChange (block p ?c)"
    by (simp_all add: p1)
qed

lemma Create_reference:
  assumes "Create c p = Returned r p'"
  shows "IsValid (mem (control_block_pool p')) r"
    and "control_block_tag r = tag (block p (context_ptr r))"
    and "tag (block p' b) = tag (block p b)"
    and "\<not> IsPendingDeletion (block p b) \<Longrightarrow> \<not> IsPendingDeletion (block p' b)"
  using assms
  by (auto simp: Create_def Let_def Allocate_def Construct_def IsValid_def reference_to_def
      GetGarbageTag_def block_def
      simp del: mem_control_block_pool
      split: if_splits outcome.splits option.splits)

lemma LateUpdate_reaches:
  assumes "queued p c" and "LateUpdate p = Some (Returned tr p')"
  obtains q q' where
    "pending_changes_head q = c"
    "flags (block q c) = flags (block p c)" "tag (block q c) = tag (block p c)"
    "apply_pending c (q\<lparr>pending_changes_head := next (block q c)\<rparr>) = Returned () q'"
    "kept c q' p'"
proof -
  from assms(1) obtain xs e where
    seg: "lseg (block p) (pending_changes_head p) (xs @ [c]) e" and d: "distinct (xs @ [c])"
    by (auto simp: queued_def)
  from seg have s1: "lseg (block p) (pending_changes_head p) xs c" and c: "c \<noteq> Null"
    by (auto simp: lseg_append)
  from d have d1: "distinct xs" and nin: "c \<notin> set xs" by auto
  from LateUpdate_segment [OF s1 d1 assms(2)] nin obtain q tr1 where
    q: "pending_changes_head q = c" "LateUpdate q = Some (Returned tr1 p')"
      "tag (block q c) = tag (block p c)" "flags (block q c) = flags (block p c)"
    by auto
  from q(1,2) c obtain q2 tr2 where
    a: "apply_pending c (q\<lparr>pending_changes_head := next (block q c)\<rparr>) = Returned () q2"
    and l: "LateUpdate q2 = Some (Returned tr2 p')"
    by (auto elim: LateUpdate_Returned_pop)
  from that [OF q(1) q(4) q(3) a LateUpdate_kept [OF l]] show ?thesis .
qed

lemma Update_loop_block:
  "Update_loop tick is p = Returned cs p' \<Longrightarrow>
     block p' = block p \<and> pending_changes_head p' = pending_changes_head p"
proof (induction "is" arbitrary: p cs)
  case Nil
  then show ?case by simp
next
  case (Cons i rest)
  from Cons.prems obtain c cs' where
    "Update_loop tick rest (p\<lparr>components := (components p)(i := Some (tick c))\<rparr>) = Returned cs' p'"
    by (auto split: if_splits option.splits outcome.splits)
  from Cons.IH [OF this] show ?case by simp
qed

lemma Update_block:
  "Update tick p = Returned cs p' \<Longrightarrow>
     block p' = block p \<and> pending_changes_head p' = pending_changes_head p"
  by (simp add: Update_def Let_def Update_loop_block)

lemma SetActive_cases:
  assumes "SetActive r v p = Returned u p'"
  obtains
    (same) "IsValid (block p) r" "IsPointerValid MAX_COMPONENTS (context_ptr r)"
      "v = IsComponentActive (block p (context_ptr r))" "p' = p"
  | (marked) "IsValid (block p) r" "IsPointerValid MAX_COMPONENTS (context_ptr r)"
      "v \<noteq> IsComponentActive (block p (context_ptr r))"
      "p' = update_block (context_ptr r) (MarkActiveStateChange v)
              (if \<not> IsPendingChanges (block p (context_ptr r)) then push_pending (context_ptr r) p else p)"
  using assms
  by (auto simp: SetActive_def Let_def split: if_splits)

lemma Delete_cases:
  assumes "Delete r p = Returned u p'"
  obtains "IsValid (block p) r" "IsPointerValid MAX_COMPONENTS (context_ptr r)"
      "p' = update_block (context_ptr r) MarkForDeletion
              (if \<not> IsPendingChanges (block p (context_ptr r)) then push_pending (context_ptr r) p else p)"
  using assms
  by (auto simp: Delete_def Let_def split: if_splits)

lemma IsValid_cat:
  "IsValid m (cat t i) \<Longrightarrow> i < length (cats t)"
  by (auto simp: cat_def IsValid_def null_reference_def split: if_splits)

lemma run_call_cats:
  assumes "run_call tick call t = Some (Returned u t')"
  shows "\<exists>ys. cats t' = cats t @ ys"
  using assms
  by (cases call) (auto split: outcome.splits option.splits)

lemma run_cats:
  "run tick calls t = Some (Returned u t') \<Longrightarrow> \<exists>ys. cats t' = cats t @ ys"
proof (induction calls arbitrary: t)
  case Nil
  then show ?case by simp
next
  case (Cons call calls)
  from Cons.prems obtain t1 where
    1: "run_call tick call t = Some (Returned () t1)" and 2: "run tick calls t1 = Some (Returned u t')"
    by (auto split: option.splits outcome.splits)
  from run_call_cats [OF 1] Cons.IH [OF 2] show ?case by auto
qed

lemma cat_append: "i < length (cats t) \<Longrightarrow> cats t' = cats t @ ys \<Longrightarrow> cat t' i = cat t i"
  by (simp add: cat_def nth_append)

lemma run_call_undeleted:
  assumes "run_call tick call t = Some (Returned u t')"
    and "\<not> IsPendingDeletion (block (test_manager t) b)"
    and "\<forall>i. call = DoDelete i \<longrightarrow> context_ptr (cat t i) \<noteq> b"
  shows "tag (block (test_manager t') b) = tag (block (test_manager t) b) \<and>
         \<not> IsPendingDeletion (block (test_manager t') b)"
proof (cases call)
  case (DoCreate c)
  with assms(1) obtain r p' where "Create c (test_manager t) = Returned r p'" "test_manager t' = p'"
    by (auto split: outcome.splits)
  with Create_reference(3,4) [of c "test_manager t" r p' b] assms(2) show ?thesis by simp
next
  case (DoSetActive i v)
  with assms(1) obtain p' where s: "SetActive (cat t i) v (test_manager t) = Returned () p'"
    and t': "test_manager t' = p'"
    by (auto split: outcome.splits)
  from s assms(2) t' show ?thesis
    by (cases rule: SetActive_cases) auto
next
  case (DoDelete i)
  with assms(1) obtain p' where s: "Delete (cat t i) (test_manager t) = Returned () p'"
    and t': "test_manager t' = p'"
    by (auto split: outcome.splits)
  from DoDelete assms(3) have "context_ptr (cat t i) \<noteq> b" by simp
  with s assms(2) t' show ?thesis
    by (cases rule: Delete_cases) auto
next
  case DoUpdate
  with assms(1) obtain cs p' where "Update tick (test_manager t) = Returned cs p'" "test_manager t' = p'"
    by (auto split: outcome.splits)
  with Update_block [of tick "test_manager t" cs p'] assms(2) show ?thesis by simp
next
  case DoLateUpdate
  with assms(1) obtain tr p' where "LateUpdate (test_manager t) = Some (Returned tr p')"
    "test_manager t' = p'"
    by (auto split: outcome.splits option.splits)
  with LateUpdate_kept [of "test_manager t" tr p' b] assms(2) show ?thesis
    by (simp add: kept_def)
qed

lemma run_undeleted:
  assumes "run tick calls t = Some (Returned u t')"
    and "\<not> IsPendingDeletion (block (test_manager t) b)"
    and "\<forall>i. DoDelete i \<in> set calls \<longrightarrow> context_ptr (cat t' i) \<noteq> b"
  shows "tag (block (test_manager t') b) = tag (block (test_manager t) b) \<and>
         \<not> IsPendingDeletion (block (test_manager t') b)"
  using assms
proof (induction calls arbitrary: t)
  case Nil
  then show ?case by simp
next
  case (Cons call calls)
  from Cons.prems(1) obtain t1 where
    1: "run_call tick call t = Some (Returned () t1)" and 2: "run tick calls t1 = Some (Returned u t')"
    by (auto split: option.splits outcome.splits)
  from run_call_cats [OF 1] run_cats [OF 2] obtain ys where ys: "cats t' = cats t @ ys"
    by auto
  have "\<forall>i. call = DoDelete i \<longrightarrow> context_ptr (cat t i) \<noteq> b"
  proof (intro allI impI)
    fix i
    assume c: "call = DoDelete i"
    with 1 obtain p' where "Delete (cat t i) (test_manager t) = Returned () p'"
      by (auto split: outcome.splits)
    then have "IsValid (block (test_manager t)) (cat t i)"
      by (rule Delete_cases)
    then have "i < length (cats t)" by (rule IsValid_cat)
    then have "cat t' i = cat t i" using ys by (rule cat_append)
    with Cons.prems(3) c show "context_ptr (cat t i) \<noteq> b" by auto
  qed
  from run_call_undeleted [OF 1 Cons.prems(2) this]
  have s: "tag (block (test_manager t1) b) = tag (block (test_manager t) b)"
    "\<not> IsPendingDeletion (block (test_manager t1) b)"
    by simp_all
  from Cons.IH [OF 2 s(2)] Cons.prems(3) s(1) show ?case by simp
qed

lemma request_enqueued:
  assumes "run_call tick call t = Some (Returned u t1)" and "enqueues t call"
  shows "cats t1 = cats t"
    and "pending_changes_head (test_manager t1) = request_target t call"
    and "request_target t call \<noteq> Null"
    and "next (block (test_manager t1) (request_target t call)) = pending_changes_head (test_manager t)"
    and "b \<noteq> request_target t call \<Longrightarrow> block (test_manager t1) b = block (test_manager t) b"
proof -
  have "cats t1 = cats t \<and>
    pending_changes_head (test_manager t1) = request_target t call \<and>
    request_target t call \<noteq> Null \<and>
    next (block (test_manager t1) (request_target t call)) = pending_changes_head (test_manager t) \<and>
    (b \<noteq> request_target t call \<longrightarrow> block (test_manager t1) b = block (test_manager t) b)"
  proof (cases call)
    case (DoSetActive i v)
    with assms(1) obtain p' where s: "SetActive (cat t i) v (test_manager t) = Returned () p'"
      and t1: "t1 = t\<lparr>test_manager := p'\<rparr>"
      by (auto split: outcome.splits)
    from s show ?thesis
    proof (cases rule: SetActive_cases)
      case same
      with assms(2) DoSetActive show ?thesis by simp
    next
      case marked
      with assms(2) DoSetActive t1 IsPointerValid_not_Null [OF marked(2)] show ?thesis
        by simp
    qed
  next
    case (DoDelete i)
    with assms(1) obtain p' where s: "Delete (cat t i) (test_manager t) = Returned () p'"
      and t1: "t1 = t\<lparr>test_manager := p'\<rparr>"
      by (auto split: outcome.splits)
    from s show ?thesis
    proof (cases rule: Delete_cases)
      case 1
      with assms(2) DoDelete t1 IsPointerValid_not_Null [OF 1(2)] show ?thesis
        by simp
    qed
  qed (use assms(2) in simp_all)
  then show "cats t1 = cats t"
    and "pending_changes_head (test_manager t1) = request_target t call"
    and "request_target t call \<noteq> Null"
    and "next (block (test_manager t1) (request_target t call)) = pending_changes_head (test_manager t)"
    and "b \<noteq> request_target t call \<Longrightarrow> block (test_manager t1) b = block (test_manager t) b"
    by simp_all
qed

lemma cat_cats: "cats t1 = cats t \<Longrightarrow> cat t1 i = cat t i"
  by (simp add: cat_def)

lemma request_target_cats: "cats t1 = cats t \<Longrightarrow> request_target t1 call = request_target t call"
  by (cases call) (simp_all add: cat_def)

lemma enqueues_frame:
  assumes "cats t1 = cats t"
    and "block (test_manager t1) (request_target t call) = block (test_manager t) (request_target t call)"
  shows "enqueues t1 call = enqueues t call"
  using assms(2) by (cases call) (simp_all add: cat_cats [OF assms(1)])

lemma requests_queue:
  assumes "lseg (block (test_manager t)) (pending_changes_head (test_manager t)) xs Null"
    and "distinct xs"
    and "\<forall>call\<in>set reqs. enqueues t call \<and> request_target t call \<notin> set xs"
    and "distinct (map (request_target t) reqs)"
    and "run tick reqs t = Some (Returned u t1)"
  shows "lseg (block (test_manager t1)) (pending_changes_head (test_manager t1))
           (rev (map (request_target t) reqs) @ xs) Null \<and>
         distinct (rev (map (request_target t) reqs) @ xs)"
  using assms
proof (induction reqs arbitrary: t xs)
  case Nil
  then show ?case by simp
next
  case (Cons call reqs)
  let ?b = "request_target t call"
  from Cons.prems(5) obtain t' where
    1: "run_call tick call t = Some (Returned () t')" and 2: "run tick reqs t' = Some (Returned u t1)"
    by (auto split: option.splits outcome.splits)
  from Cons.prems(3) have enq: "enqueues t call" and nin: "?b \<notin> set xs"
    by simp_all
  note e = request_enqueued [OF 1 enq]
  have same: "\<forall>x\<in>set xs. next (block (test_manager t') x) = next (block (test_manager t) x)"
  proof
    fix x
    assume "x \<in> set xs"
    with nin have "x \<noteq> ?b" by auto
    then have "block (test_manager t') x = block (test_manager t) x"
      by (rule e(5))
    then show "next (block (test_manager t') x) = next (block (test_manager t) x)"
      by (rule arg_cong)
  qed
  have "lseg (block (test_manager t')) (pending_changes_head (test_manager t)) xs Null"
    using Cons.prems(1) by (simp only: lseg_frame [OF same])
  then have seg: "lseg (block (test_manager t')) (pending_changes_head (test_manager t')) (?b # xs) Null"
    by (simp only: lseg.simps e(2,3,4) simp_thms)
  have d: "distinct (?b # xs)"
    using nin Cons.prems(2) by simp
  have tg: "request_target t' c = request_target t c" for c
    using e(1) by (rule request_target_cats)
  then have tg': "request_target t' = request_target t"
    by (simp add: fun_eq_iff)
  have rest: "\<forall>c\<in>set reqs. enqueues t' c \<and> request_target t' c \<notin> set (?b # xs)"
  proof
    fix c
    assume c: "c \<in> set reqs"
    with Cons.prems(3) have ec: "enqueues t c" and nc: "request_target t c \<notin> set xs"
      by simp_all
    from c Cons.prems(4) have ne: "request_target t c \<noteq> ?b"
      by (auto simp: image_iff)
    from e(5) [OF ne] e(1) ec have "enqueues t' c"
      using enqueues_frame [of t' t c] by simp
    with nc ne tg show "enqueues t' c \<and> request_target t' c \<notin> set (?b # xs)"
      by simp
  qed
  have d': "distinct (map (request_target t') reqs)"
    using Cons.prems(4) by (simp add: tg')
  from Cons.IH [OF seg d rest d' 2] show ?case
    by (simp add: tg')
qed


lemma unat_minus_1_size_t: "unat (- 1 :: size_t) = 18446744073709551615"
proof -
  have "(- 1 :: size_t) = word_of_int (- 1)" by simp
  then have "unat (- 1 :: size_t) = nat ((- 1) mod 18446744073709551616)"
    by (simp only: unat_eq_nat_uint uint_word_of_int) simp
  then show ?thesis by simp
qed

lemmas eval_defs = testbed_def ComponentPool_def cat_def Create_def Allocate_def Deallocate_def
  Construct_def Destroy_def construct_def destruct_def SetActive_def Delete_def
  apply_pending_def DeleteInternal_def SetActiveInternal_def SwapComponents_def Update_def Count_def
  block_def update_block_def push_pending_def IsValid_def IsPointerValid_def reference_to_def
  GetGarbageTag_def GetComponentPtr_def Get_def IsComponentActive_def SetComponentActive_def MarkActiveStateChange_def
  IsPendingChanges_def IsPendingActiveStateChange_def GetPendingActiveStateChange_def
  ClearPendingChanges_def MarkForDeletion_def IsPendingDeletion_def IS_ACTIVE_def PENDING_ACTIVE_def
  PENDING_SLEEP_def PENDING_DELETE_def MAX_COMPONENTS_def mem_CRCBPool pool_head_CRCBPool blank_memory_def
  ComponentReferenceControlBlock_def Let_def null_reference_def observe_def unat_minus_1_size_t
  LateUpdate.simps upt_conv_Cons

lemmas scenario_defs = testbed_after_def reuse_calls_def wake_delete_calls_def sleep_wake_calls_def
  three_cats_def three_requests_def two_ticks_def sleep_twice_calls_def sleep_thrice_calls_def
  eval_defs

lemma SetActive_applied_state:
  assumes "IsValid (mem (control_block_pool p)) r"
    and "IsPointerValid MAX_COMPONENTS (context_ptr r)"
    and "IsComponentActive (block p (context_ptr r)) = v"
  shows "SetActive r v p = Returned () p"
  using assms by (auto simp: SetActive_def Let_def)

lemmas inv_defs = store_inv_def live_def record_of_def sleep_due_def

lemma cycle_fresh: "cycle (ComponentPool blank_memory) = Some (worn_pool 1)"
  by (simp add: cycle_def worn_pool_def eval_defs del: mem_control_block_pool)

lemma cycle_worn: "cycle (worn_pool g) = Some (worn_pool (g + 1))"
  by (simp add: cycle_def worn_pool_def eval_defs del: mem_control_block_pool)

lemma cycles_fresh: "cycles (Suc n) (ComponentPool blank_memory) = Some (worn_pool (of_nat (Suc n)))"
  by (induction n) (simp_all add: cycle_fresh cycle_worn add.commute)

section \<open>The bookkeeping across a checkpoint\<close>

lemma length_filter_upt: "length (filter P [0..<n]) = card {j. j < n \<and> P j}"
proof -
  have "card (set (filter P [0..<n])) = length (filter P [0..<n])"
    by (rule distinct_card) simp
  then have "length (filter P [0..<n]) = card (set (filter P [0..<n]))"
    by (rule sym)
  also have "set (filter P [0..<n]) = {j. j < n \<and> P j}"
    by auto
  finally show ?thesis .
qed

lemma unat_Count:
  "unat (num_sleeping_components p) + unat (num_active_components p) \<le> MAX_COMPONENTS \<Longrightarrow>
   unat (Count p) = unat (num_sleeping_components p) + unat (num_active_components p)"
proof -
  assume "unat (num_sleeping_components p) + unat (num_active_components p) \<le> MAX_COMPONENTS"
  then have "unat (num_active_components p) + unat (num_sleeping_components p) < 2 ^ LENGTH(64)"
    by (simp add: MAX_COMPONENTS_def)
  then have "unat (num_active_components p + num_sleeping_components p) =
      unat (num_active_components p) + unat (num_sleeping_components p)"
    by (rule unat_add_lem [THEN iffD1])
  then show ?thesis
    by (simp add: Count_def)
qed

lemma store_inv_iff:
  "store_inv p \<longleftrightarrow>
     unat (num_sleeping_components p) + unat (num_active_components p) \<le> MAX_COMPONENTS \<and>
     (\<forall>j < unat (Count p). IsPointerValid MAX_COMPONENTS (control_table p j) \<and>
          component (block p (control_table p j)) = Some (int j)) \<and>
     card {j. j < unat (Count p) \<and> IsComponentActive (block p (control_table p j))} =
       unat (num_active_components p)"
  by (auto simp: store_inv_def list_all_iff length_filter_upt)

lemma live_iff: "live p b \<longleftrightarrow> (\<exists>j < unat (Count p). control_table p j = b)"
  by (auto simp: live_def)

lemma record_of_cong:
  "component (block p' b) = component (block p b) \<Longrightarrow> components p' = components p \<Longrightarrow>
     record_of p' b = record_of p b"
  by (auto simp: record_of_def split: option.splits)

lemma store_inv_slot:
  assumes "store_inv p" and "j < unat (Count p)"
  shows "IsPointerValid MAX_COMPONENTS (control_table p j)"
    and "component (block p (control_table p j)) = Some (int j)"
    and "control_table p j \<noteq> Null"
    and "j < MAX_COMPONENTS"
    and "live p (control_table p j)"
proof -
  from assms(1) have b: "unat (num_sleeping_components p) + unat (num_active_components p) \<le> MAX_COMPONENTS"
    and s: "\<forall>j < unat (Count p). IsPointerValid MAX_COMPONENTS (control_table p j) \<and>
          component (block p (control_table p j)) = Some (int j)"
    unfolding store_inv_iff by blast+
  from s assms(2) show v: "IsPointerValid MAX_COMPONENTS (control_table p j)"
    and "component (block p (control_table p j)) = Some (int j)"
    by blast+
  from v show "control_table p j \<noteq> Null"
    by (rule IsPointerValid_not_Null)
  from unat_Count [OF b] b assms(2) show "j < MAX_COMPONENTS"
    by linarith
  from assms(2) show "live p (control_table p j)"
    unfolding live_iff by blast
qed

lemma store_inv_inj:
  assumes "store_inv p" and "j < unat (Count p)" and "k < unat (Count p)"
    and "control_table p j = control_table p k"
  shows "j = k"
proof -
  from store_inv_slot(2) [OF assms(1,2)] store_inv_slot(2) [OF assms(1,3)] assms(4)
  have "Some (int j) = Some (int k)"
    by (simp only:)
  then show ?thesis
    by (simp only: option.inject of_nat_eq_iff)
qed

lemma live_slot:
  assumes "store_inv p" and "live p b"
  obtains j where "j < unat (Count p)" "control_table p j = b" "component (block p b) = Some (int j)"
    "IsPointerValid MAX_COMPONENTS b" "j < MAX_COMPONENTS"
proof -
  from assms(2) obtain j where j: "j < unat (Count p)" "control_table p j = b"
    unfolding live_iff by blast
  from store_inv_slot [OF assms(1) j(1)] j that show ?thesis
    by blast
qed

lemma SwapComponents_explicit:
  assumes "store_inv p" and "unat l < unat (Count p)" and "unat t < unat (Count p)" and "l \<noteq> t"
  shows "SwapComponents l t p = Returned ()
     ((update_block (control_table p (unat t)) (\<lambda>b. b\<lparr>component := Some (int (unat l))\<rparr>)
        (update_block (control_table p (unat l)) (\<lambda>b. b\<lparr>component := Some (int (unat t))\<rparr>) p))
       \<lparr>components := (components p)(unat l := components p (unat t), unat t := components p (unat l)),
        control_table := (control_table p)(unat l := control_table p (unat t), unat t := control_table p (unat l))\<rparr>)"
  using assms store_inv_slot [OF assms(1,2)] store_inv_slot [OF assms(1,3)]
  by (simp add: SwapComponents_def Let_def del: mem_control_block_pool)

lemma card_swapped:
  fixes P :: "nat \<Rightarrow> bool"
  assumes "L < n" and "T < n"
  shows "card {j. j < n \<and> P ((id(L := T, T := L)) j)} = card {j. j < n \<and> P j}"
proof -
  let ?s = "id(L := T, T := L)"
  have inj: "inj_on ?s {j. j < n \<and> P (?s j)}"
    by (auto simp: inj_on_def split: if_splits)
  have "?s ` {j. j < n \<and> P (?s j)} = {j. j < n \<and> P j}"
  proof (intro set_eqI iffI)
    fix x assume "x \<in> ?s ` {j. j < n \<and> P (?s j)}"
    with assms show "x \<in> {j. j < n \<and> P j}"
      by (auto split: if_splits)
  next
    fix x assume x: "x \<in> {j. j < n \<and> P j}"
    have "?s (?s x) = x" by simp
    moreover from x assms have "?s x \<in> {j. j < n \<and> P (?s j)}"
      by (auto split: if_splits)
    ultimately show "x \<in> ?s ` {j. j < n \<and> P (?s j)}"
      by (metis image_eqI)
  qed
  with card_image [OF inj] show ?thesis
    by simp
qed

lemma SwapComponents_inv:
  assumes inv: "store_inv p" and l: "unat l < unat (Count p)" and t: "unat t < unat (Count p)"
  obtains p' where "SwapComponents l t p = Returned () p'"
    and "store_inv p'"
    and "\<And>b. live p' b = live p b"
    and "\<And>b. live p b \<Longrightarrow> record_of p' b = record_of p b"
    and "\<And>b. \<not> live p b \<Longrightarrow> block p' b = block p b"
    and "control_table p' (unat t) = control_table p (unat l)"
    and "\<And>j. j \<noteq> unat l \<Longrightarrow> j \<noteq> unat t \<Longrightarrow> control_table p' j = control_table p j"
proof (cases "l = t")
  case True
  then have "SwapComponents l t p = Returned () p"
    by (simp add: SwapComponents_def)
  with True inv show ?thesis
    by (intro that [of p]) simp_all
next
  case False
  let ?L = "unat l" and ?T = "unat t"
  let ?bl = "control_table p ?L" and ?bt = "control_table p ?T"
  let ?p' = "(update_block ?bt (\<lambda>b. b\<lparr>component := Some (int ?L)\<rparr>)
        (update_block ?bl (\<lambda>b. b\<lparr>component := Some (int ?T)\<rparr>) p))
       \<lparr>components := (components p)(?L := components p ?T, ?T := components p ?L),
        control_table := (control_table p)(?L := ?bt, ?T := ?bl)\<rparr>"
  from False have LT: "?L \<noteq> ?T"
    by (simp add: word_unat_eq_iff)
  have sw: "SwapComponents l t p = Returned () ?p'"
    using inv l t False by (rule SwapComponents_explicit)
  note sl = store_inv_slot [OF inv l]
  note st = store_inv_slot [OF inv t]
  have ne: "?bl \<noteq> ?bt"
    using store_inv_inj [OF inv l t] LT by blast
  have cnt: "Count ?p' = Count p" "num_sleeping_components ?p' = num_sleeping_components p"
    "num_active_components ?p' = num_active_components p"
    by (simp_all add: Count_def)
  have blk: "block ?p' b = (if b = ?bt then (block p ?bt)\<lparr>component := Some (int ?L)\<rparr>
       else if b = ?bl then (block p ?bl)\<lparr>component := Some (int ?T)\<rparr> else block p b)" for b
    by simp
  have ct: "control_table ?p' j = control_table p ((id(?L := ?T, ?T := ?L)) j)" for j
    by simp
  have other: "control_table p j \<noteq> ?bl \<and> control_table p j \<noteq> ?bt"
    if "j < unat (Count p)" "j \<noteq> ?L" "j \<noteq> ?T" for j
    using store_inv_inj [OF inv that(1) l] store_inv_inj [OF inv that(1) t] that(2,3) by blast
  have fl: "flags (block ?p' b) = flags (block p b)" for b
    by simp
  have act: "IsComponentActive (block ?p' b) = IsComponentActive (block p b)" for b
    using fl [of b] by (rule flag_tests_cong)
  have lv: "live ?p' b = live p b" for b
  proof
    assume "live ?p' b"
    then obtain j where j: "j < unat (Count p)" "control_table ?p' j = b"
      unfolding live_iff cnt by blast
    with l t have "(id(?L := ?T, ?T := ?L)) j < unat (Count p)"
      by (auto split: if_splits)
    with j(2) show "live p b"
      unfolding live_iff ct by blast
  next
    assume "live p b"
    then obtain j where j: "j < unat (Count p)" "control_table p j = b"
      unfolding live_iff by blast
    let ?k = "(id(?L := ?T, ?T := ?L)) j"
    from j(1) l t have "?k < unat (Count p)"
      by (auto split: if_splits)
    moreover have "control_table ?p' ?k = b"
      using j(2) unfolding ct by auto
    ultimately show "live ?p' b"
      unfolding live_iff cnt by blast
  qed
  have slot: "IsPointerValid MAX_COMPONENTS (control_table ?p' j) \<and>
          component (block ?p' (control_table ?p' j)) = Some (int j)"
    if j: "j < unat (Count p)" for j
  proof -
    consider "j = ?L" | "j = ?T" | "j \<noteq> ?L" "j \<noteq> ?T" by blast
    then show ?thesis
    proof cases
      case 1
      with LT st(1) show ?thesis by simp
    next
      case 2
      with LT sl(1) ne show ?thesis by simp
    next
      case 3
      with other [OF j 3] store_inv_slot(1,2) [OF inv j] show ?thesis
        by simp
    qed
  qed
  have b1: "unat (num_sleeping_components p) + unat (num_active_components p) \<le> MAX_COMPONENTS"
    and c1: "card {j. j < unat (Count p) \<and> IsComponentActive (block p (control_table p j))} =
       unat (num_active_components p)"
    using inv unfolding store_inv_iff by blast+
  have "card {j. j < unat (Count p) \<and> IsComponentActive (block ?p' (control_table ?p' j))} =
      card {j. j < unat (Count p) \<and> IsComponentActive (block p (control_table p ((id(?L := ?T, ?T := ?L)) j)))}"
    unfolding act ct ..
  also have "\<dots> = card {j. j < unat (Count p) \<and> IsComponentActive (block p (control_table p j))}"
    using l t by (rule card_swapped)
  finally have c2: "card {j. j < unat (Count ?p') \<and> IsComponentActive (block ?p' (control_table ?p' j))} =
       unat (num_active_components ?p')"
    unfolding cnt c1 .
  have inv': "store_inv ?p'"
    unfolding store_inv_iff
  proof (intro conjI allI impI)
    show "unat (num_sleeping_components ?p') + unat (num_active_components ?p') \<le> MAX_COMPONENTS"
      unfolding cnt by (rule b1)
    show "card {j. j < unat (Count ?p') \<and> IsComponentActive (block ?p' (control_table ?p' j))} =
       unat (num_active_components ?p')" by (rule c2)
  next
    fix j assume "j < unat (Count ?p')"
    then have j: "j < unat (Count p)" unfolding cnt .
    from slot [OF j] show "IsPointerValid MAX_COMPONENTS (control_table ?p' j)"
      and "component (block ?p' (control_table ?p' j)) = Some (int j)" by blast+
  qed
  have "int (unat l) < int MAX_COMPONENTS" and "int (unat t) < int MAX_COMPONENTS"
    using sl(4) st(4) by (simp_all only: of_nat_less_iff)
  then have iL: "uint l < int MAX_COMPONENTS" and iT: "uint t < int MAX_COMPONENTS"
    by simp_all
  have rec: "record_of ?p' b = record_of p b" if "live p b" for b
  proof -
    from inv that obtain j where j: "j < unat (Count p)" "control_table p j = b"
      "component (block p b) = Some (int j)" "j < MAX_COMPONENTS"
      by (rule live_slot)
    consider "j = ?L" | "j = ?T" | "j \<noteq> ?L" "j \<noteq> ?T" by blast
    then show ?thesis
    proof cases
      case 1
      with j ne LT iL iT show ?thesis
        by (simp add: record_of_def)
    next
      case 2
      with j ne LT iL iT show ?thesis
        by (simp add: record_of_def)
    next
      case 3
      with other [OF j(1) 3] j show ?thesis
        by (simp add: record_of_def)
    qed
  qed
  have nl: "block ?p' b = block p b" if "\<not> live p b" for b
  proof -
    from that sl(5) st(5) have "b \<noteq> ?bl" "b \<noteq> ?bt" by blast+
    then show ?thesis by simp
  qed
  show ?thesis
  proof (rule that [of ?p'])
    show "SwapComponents l t p = Returned () ?p'" by (rule sw)
    show "store_inv ?p'" by (rule inv')
    show "live ?p' b = live p b" for b by (rule lv)
    show "record_of ?p' b = record_of p b" if "live p b" for b using that by (rule rec)
    show "block ?p' b = block p b" if "\<not> live p b" for b using that by (rule nl)
    show "control_table ?p' (unat t) = control_table p (unat l)" by simp
    show "control_table ?p' j = control_table p j" if "j \<noteq> unat l" "j \<noteq> unat t" for j
      using that by simp
  qed
qed

lemma loc_index_wake:
  "s < MAX_COMPONENTS \<Longrightarrow> unat (word_of_int (int s - 0) :: size_t) = s"
  by (simp add: unat_size_t_of_nat MAX_COMPONENTS_def)

lemma loc_index_sleep:
  fixes k :: size_t
  assumes "s < MAX_COMPONENTS"
  shows "unat (word_of_int (int s - int (unat k)) :: size_t) =
           (if unat k \<le> s then s - unat k else s + 2 ^ 64 - unat k)"
proof -
  have "(word_of_int (int s - int (unat k)) :: size_t) = of_nat s - k"
    by simp
  moreover have "unat (of_nat s :: size_t) = s"
    using assms by (simp add: unat_size_t_of_nat MAX_COMPONENTS_def)
  ultimately show ?thesis
    by (simp add: unat_sub_if_size word_size)
qed

lemma store_inv_counts:
  assumes "store_inv p" and "j < unat (Count p)"
  shows "IsComponentActive (block p (control_table p j)) \<Longrightarrow> 0 < unat (num_active_components p)"
    and "\<not> IsComponentActive (block p (control_table p j)) \<Longrightarrow> 0 < unat (num_sleeping_components p)"
proof -
  let ?A = "{j. j < unat (Count p) \<and> IsComponentActive (block p (control_table p j))}"
  from assms(1) have b: "unat (num_sleeping_components p) + unat (num_active_components p) \<le> MAX_COMPONENTS"
    and c: "card ?A = unat (num_active_components p)"
    unfolding store_inv_iff by blast+
  have fin: "finite ?A" by simp
  {
    assume "IsComponentActive (block p (control_table p j))"
    with assms(2) have "j \<in> ?A" by simp
    with fin have "0 < card ?A" by (auto simp: card_gt_0_iff)
    with c show "0 < unat (num_active_components p)" by simp
  }
  {
    assume "\<not> IsComponentActive (block p (control_table p j))"
    with assms(2) have "?A \<subseteq> {..<unat (Count p)} - {j}" by auto
    then have "card ?A \<le> card ({..<unat (Count p)} - {j})"
      by (rule card_mono [rotated]) simp
    also have "\<dots> = unat (Count p) - 1"
      using assms(2) by simp
    finally have "unat (num_active_components p) < unat (Count p)"
      using c assms(2) by linarith
    with unat_Count [OF b] show "0 < unat (num_sleeping_components p)" by linarith
  }
qed

lemma set_flag_inv:
  fixes p1 :: "'c ComponentPool"
  assumes inv: "store_inv p1" and lv: "live p1 x" and ne: "IsComponentActive (block p1 x) \<noteq> v"
  defines "p' \<equiv> update_block x (SetComponentActive v)
           (p1\<lparr>num_sleeping_components :=
                  (if v then num_sleeping_components p1 - 1 else num_sleeping_components p1 + 1),
               num_active_components :=
                  (if v then num_active_components p1 + 1 else num_active_components p1 - 1)\<rparr>)"
  shows "store_inv p'" and "Count p' = Count p1"
proof -
  let ?ns = "num_sleeping_components p1" and ?na = "num_active_components p1"
  let ?A = "{j. j < unat (Count p1) \<and> IsComponentActive (block p1 (control_table p1 j))}"
  from inv lv obtain s where s: "s < unat (Count p1)" "control_table p1 s = x"
    "component (block p1 x) = Some (int s)"
    by (rule live_slot)
  from inv have b: "unat ?ns + unat ?na \<le> MAX_COMPONENTS"
    and c: "card ?A = unat ?na"
    unfolding store_inv_iff by blast+
  note cn = store_inv_counts [OF inv s(1), unfolded s(2)]
  have un: "unat (num_sleeping_components p') + unat (num_active_components p') = unat ?ns + unat ?na
    \<and> unat (num_active_components p') = (if v then unat ?na + 1 else unat ?na - 1)"
  proof (cases v)
    case True
    with ne cn(2) have "0 < unat ?ns" by simp
    then have "?ns \<noteq> 0" by (simp add: unat_gt_0)
    then have 1: "unat (?ns - 1) = unat ?ns - 1" by (rule unat_minus_one)
    from b have "unat ?na + unat (1::size_t) < 2 ^ LENGTH(64)"
      by (simp add: MAX_COMPONENTS_def)
    then have 2: "unat (?na + 1) = unat ?na + unat (1::size_t)"
      by (rule unat_add_lem [THEN iffD1])
    from True 1 2 \<open>0 < unat ?ns\<close> show ?thesis
      by (simp add: p'_def)
  next
    case False
    with ne cn(1) have "0 < unat ?na" by simp
    then have "?na \<noteq> 0" by (simp add: unat_gt_0)
    then have 1: "unat (?na - 1) = unat ?na - 1" by (rule unat_minus_one)
    from b have "unat ?ns + unat (1::size_t) < 2 ^ LENGTH(64)"
      by (simp add: MAX_COMPONENTS_def)
    then have 2: "unat (?ns + 1) = unat ?ns + unat (1::size_t)"
      by (rule unat_add_lem [THEN iffD1])
    from False 1 2 \<open>0 < unat ?na\<close> show ?thesis
      by (simp add: p'_def)
  qed
  show cnt: "Count p' = Count p1"
    by (simp add: p'_def Count_def)
  have ct: "control_table p' = control_table p1"
    by (simp add: p'_def)
  have blk: "block p' b = (if b = x then SetComponentActive v (block p1 x) else block p1 b)" for b
    by (simp add: p'_def)
  have slot_x: "control_table p1 j = x \<longleftrightarrow> j = s" if "j < unat (Count p1)" for j
    using store_inv_inj [OF inv that s(1)] s(2) by auto
  have act: "IsComponentActive (block p' (control_table p1 j)) =
       (if j = s then v else IsComponentActive (block p1 (control_table p1 j)))"
    if "j < unat (Count p1)" for j
    using slot_x [OF that] by (simp add: blk)
  have A': "{j. j < unat (Count p') \<and> IsComponentActive (block p' (control_table p' j))} =
      (if v then insert s ?A else ?A - {s})"
    unfolding cnt ct using act s(1) by (auto split: if_splits)
  have sA: "s \<in> ?A \<longleftrightarrow> \<not> v"
    using s(1,2) ne by auto
  have card': "card {j. j < unat (Count p') \<and> IsComponentActive (block p' (control_table p' j))} =
      unat (num_active_components p')"
  proof (cases v)
    case True
    with sA have "s \<notin> ?A" by simp
    then have "card (insert s ?A) = card ?A + 1" by simp
    with True c un show ?thesis unfolding A' by simp
  next
    case False
    with sA have "s \<in> ?A" by simp
    then have "card (?A - {s}) = card ?A - 1" by simp
    with False c un show ?thesis unfolding A' by simp
  qed
  show "store_inv p'"
    unfolding store_inv_iff
  proof (intro conjI allI impI)
    show "unat (num_sleeping_components p') + unat (num_active_components p') \<le> MAX_COMPONENTS"
      using un b by simp
    show "card {j. j < unat (Count p') \<and> IsComponentActive (block p' (control_table p' j))} =
      unat (num_active_components p')" by (rule card')
  next
    fix j assume "j < unat (Count p')"
    then have j: "j < unat (Count p1)" unfolding cnt .
    from store_inv_slot(1,2) [OF inv j]
    show "IsPointerValid MAX_COMPONENTS (control_table p' j)"
      and "component (block p' (control_table p' j)) = Some (int j)"
      by (auto simp: ct blk)
  qed
qed

lemma SwapComponents_in_bounds:
  "SwapComponents l t p = Returned u p' \<Longrightarrow>
     l = t \<or> (unat l < MAX_COMPONENTS \<and> unat t < MAX_COMPONENTS)"
  by (auto simp: SwapComponents_def Let_def split: if_splits)

lemma SetActiveInternal_wake_inv:
  fixes p :: "'c ComponentPool"
  assumes inv: "store_inv p" and lv: "live p x" and na: "\<not> IsComponentActive (block p x)"
  obtains p' where "SetActiveInternal x True p = Returned () p'"
    and "store_inv p'"
    and "\<And>b. live p' b = live p b"
    and "\<And>b. live p b \<Longrightarrow> record_of p' b = record_of p b"
    and "\<And>b. \<not> live p b \<Longrightarrow> block p' b = block p b"
proof -
  from inv lv obtain s where s: "s < unat (Count p)" "control_table p s = x"
    "component (block p x) = Some (int s)" "s < MAX_COMPONENTS"
    by (rule live_slot)
  let ?l = "word_of_int (int s - 0) :: size_t"
  let ?t = "num_sleeping_components p - 1"
  from inv have b: "unat (num_sleeping_components p) + unat (num_active_components p) \<le> MAX_COMPONENTS"
    unfolding store_inv_iff by blast
  have l: "unat ?l < unat (Count p)"
    using s(1,4) by (simp only: loc_index_wake)
  from store_inv_counts(2) [OF inv s(1)] s(2) na have "0 < unat (num_sleeping_components p)"
    by simp
  then have "num_sleeping_components p \<noteq> 0" by (simp add: unat_gt_0)
  then have "unat ?t = unat (num_sleeping_components p) - 1" by (rule unat_minus_one)
  with \<open>0 < unat (num_sleeping_components p)\<close> unat_Count [OF b]
  have t: "unat ?t < unat (Count p)" by linarith
  from inv l t obtain p1 where p1: "SwapComponents ?l ?t p = Returned () p1"
    "store_inv p1" "\<And>b. live p1 b = live p b"
    "\<And>b. live p b \<Longrightarrow> record_of p1 b = record_of p b"
    "\<And>b. \<not> live p b \<Longrightarrow> block p1 b = block p b"
    by (rule SwapComponents_inv) blast
  note fr = SwapComponents_frame [OF p1(1)]
  let ?p' = "update_block x (SetComponentActive True)
           (p1\<lparr>num_sleeping_components := (if True then num_sleeping_components p1 - 1 else num_sleeping_components p1 + 1),
               num_active_components := (if True then num_active_components p1 + 1 else num_active_components p1 - 1)\<rparr>)"
  have res: "SetActiveInternal x True p = Returned () ?p'"
    using na s(3) p1(1) by (simp add: SetActiveInternal_def fr)
  have lv1: "live p1 x" using lv by (simp add: p1(3))
  have a1: "IsComponentActive (block p1 x) \<noteq> True"
    using na flag_tests_cong(1) [OF fr(3) [of x]] by simp
  note sf = set_flag_inv [OF p1(2) lv1 a1]
  have live': "live ?p' b = live p1 b" for b
    unfolding live_iff sf(2) by simp
  have rec': "record_of ?p' b = record_of p1 b" for b
    by (simp add: record_of_def split: option.splits)
  show ?thesis
  proof (rule that [of ?p'])
    show "SetActiveInternal x True p = Returned () ?p'" by (rule res)
    show "store_inv ?p'" by (rule sf(1))
    show "live ?p' b = live p b" for b by (simp only: live' p1(3))
    show "record_of ?p' b = record_of p b" if "live p b" for b
      using p1(4) [OF that] by (simp only: rec')
    show "block ?p' b = block p b" if "\<not> live p b" for b
    proof -
      from that lv have "b \<noteq> x" by blast
      with p1(5) [OF that] show ?thesis by simp
    qed
  qed
qed

lemma SetActiveInternal_sleep_inv:
  fixes p :: "'c ComponentPool"
  assumes inv: "store_inv p" and lv: "live p x" and ac: "IsComponentActive (block p x)"
    and ret: "SetActiveInternal x False p = Returned u p'"
  shows "store_inv p' \<and> (\<forall>b. live p' b = live p b) \<and>
         (\<forall>b. live p b \<longrightarrow> record_of p' b = record_of p b) \<and>
         (\<forall>b. \<not> live p b \<longrightarrow> block p' b = block p b)"
proof -
  from inv lv obtain s where s: "s < unat (Count p)" "control_table p s = x"
    "component (block p x) = Some (int s)" "s < MAX_COMPONENTS"
    by (rule live_slot)
  let ?l = "word_of_int (int s - int (unat (num_sleeping_components p))) :: size_t"
  let ?t = "num_sleeping_components p"
  from inv have b: "unat (num_sleeping_components p) + unat (num_active_components p) \<le> MAX_COMPONENTS"
    unfolding store_inv_iff by blast
  from ret ac s(3) obtain p1 where sw: "SwapComponents ?l ?t p = Returned () p1"
    and p': "p' = update_block x (SetComponentActive False)
           (p1\<lparr>num_sleeping_components := num_sleeping_components p1 + 1,
               num_active_components := num_active_components p1 - 1\<rparr>)"
    by (auto simp: SetActiveInternal_def Let_def split: outcome.splits)
  from store_inv_counts(1) [OF inv s(1)] s(2) ac have "0 < unat (num_active_components p)"
    by simp
  with unat_Count [OF b] have t: "unat ?t < unat (Count p)" by linarith
  have l: "unat ?l < unat (Count p)"
  proof (cases "unat (num_sleeping_components p) \<le> s")
    case True
    then have "unat ?l = s - unat (num_sleeping_components p)"
      using loc_index_sleep [OF s(4), of "num_sleeping_components p"] by (simp only: if_True)
    with s(1) show ?thesis by linarith
  next
    case False
    then have big: "unat ?l = s + 2 ^ 64 - unat (num_sleeping_components p)"
      using loc_index_sleep [OF s(4), of "num_sleeping_components p"] by (simp only: if_False)
    with b have "\<not> unat ?l < MAX_COMPONENTS"
      by (simp add: MAX_COMPONENTS_def)
    moreover from big b have "unat ?l \<noteq> unat ?t"
      by (simp add: MAX_COMPONENTS_def)
    then have "?l \<noteq> ?t" by auto
    ultimately show ?thesis
      using SwapComponents_in_bounds [OF sw] by blast
  qed
  from inv l t obtain p1' where p1: "SwapComponents ?l ?t p = Returned () p1'"
    "store_inv p1'" "\<And>b. live p1' b = live p b"
    "\<And>b. live p b \<Longrightarrow> record_of p1' b = record_of p b"
    "\<And>b. \<not> live p b \<Longrightarrow> block p1' b = block p b"
    by (rule SwapComponents_inv) blast
  from sw p1(1) have eq: "p1' = p1" by simp
  note p1 = p1 [unfolded eq]
  note fr = SwapComponents_frame [OF sw]
  let ?p' = "update_block x (SetComponentActive False)
           (p1\<lparr>num_sleeping_components := (if False then num_sleeping_components p1 - 1 else num_sleeping_components p1 + 1),
               num_active_components := (if False then num_active_components p1 + 1 else num_active_components p1 - 1)\<rparr>)"
  have pe: "p' = ?p'" unfolding p' by simp
  have lv1: "live p1 x" using lv by (simp add: p1(3))
  have a1: "IsComponentActive (block p1 x) \<noteq> False"
    using ac flag_tests_cong(1) [OF fr(3) [of x]] by simp
  note sf = set_flag_inv [OF p1(2) lv1 a1]
  have live': "live ?p' b = live p1 b" for b
    unfolding live_iff sf(2) by simp
  have rec': "record_of ?p' b = record_of p1 b" for b
    by (simp add: record_of_def split: option.splits)
  have "block ?p' b = block p b" if "\<not> live p b" for b
  proof -
    from that lv have "b \<noteq> x" by blast
    with p1(5) [OF that] show ?thesis by simp
  qed
  with sf(1) live' rec' p1(3,4) show ?thesis
    unfolding pe by (intro conjI allI impI) (simp_all only:)
qed

lemma DeleteInternal_inv:
  fixes p :: "'c ComponentPool"
  assumes inv: "store_inv p" and lv: "live p x"
  obtains p' where "DeleteInternal x p = Returned () p'"
    and "store_inv p'"
    and "\<And>b. live p' b = (live p b \<and> b \<noteq> x)"
    and "\<And>b. live p b \<Longrightarrow> b \<noteq> x \<Longrightarrow> record_of p' b = record_of p b"
    and "\<And>b. \<not> live p b \<Longrightarrow> block p' b = block p b"
proof -
  obtain p1 where p1: "SetActiveInternal x True p = Returned () p1"
    "store_inv p1" "\<And>b. live p1 b = live p b"
    "\<And>b. live p b \<Longrightarrow> record_of p1 b = record_of p b"
    "\<And>b. \<not> live p b \<Longrightarrow> block p1 b = block p b"
  proof (cases "IsComponentActive (block p x)")
    case True
    then have "SetActiveInternal x True p = Returned () p"
      by (simp add: SetActiveInternal_def)
    with inv show ?thesis
      by (intro that [of p]) simp_all
  next
    case False
    with inv lv show ?thesis
      by (rule SetActiveInternal_wake_inv) (rule that)
  qed
  have ac1: "IsComponentActive (block p1 x)"
    using SetActiveInternal_tests(1) [OF p1(1), of x] by simp
  have lv1: "live p1 x" using lv by (simp add: p1(3))
  from p1(2) lv1 obtain s where s: "s < unat (Count p1)" "control_table p1 s = x"
    "component (block p1 x) = Some (int s)" "s < MAX_COMPONENTS"
    by (rule live_slot)
  let ?n = "unat (Count p1)"
  let ?l = "word_of_int (int s - 0) :: size_t"
  let ?t = "Count p1 - 1"
  from p1(2) have b: "unat (num_sleeping_components p1) + unat (num_active_components p1) \<le> MAX_COMPONENTS"
    unfolding store_inv_iff by blast
  have l: "unat ?l < ?n"
    using s(1,4) by (simp only: loc_index_wake)
  from s(1) have "0 < ?n" by linarith
  then have "Count p1 \<noteq> 0" by (simp add: unat_gt_0)
  then have ut: "unat ?t = ?n - 1" by (rule unat_minus_one)
  with \<open>0 < ?n\<close> have t: "unat ?t < ?n" by linarith
  from t unat_Count [OF b] b have tm: "unat ?t < MAX_COMPONENTS" by linarith
  from p1(2) l t obtain p2 where p2: "SwapComponents ?l ?t p1 = Returned () p2"
    "store_inv p2" "\<And>b. live p2 b = live p1 b"
    "\<And>b. live p1 b \<Longrightarrow> record_of p2 b = record_of p1 b"
    "\<And>b. \<not> live p1 b \<Longrightarrow> block p2 b = block p1 b"
    "control_table p2 (unat ?t) = control_table p1 (unat ?l)"
    by (rule SwapComponents_inv) blast
  note fr = SwapComponents_frame [OF p2(1)]
  have c2: "Count p2 = Count p1" using p2(1) by (rule SwapComponents_Count)
  have last: "control_table p2 (?n - 1) = x"
    using p2(6) s(2,4) unfolding ut by (simp only: loc_index_wake)
  have ac2: "IsComponentActive (block p2 x)"
    using ac1 flag_tests_cong(1) [OF fr(3) [of x]] by simp
  let ?p' = "p2\<lparr>components := (components p2)(unat ?t := None),
                 num_active_components := num_active_components p2 - 1\<rparr>"
  have res: "DeleteInternal x p = Returned () ?p'"
    using p1(1) s(3) p2(1) tm by (simp add: DeleteInternal_def Let_def)
  from p2(2) have b2: "unat (num_sleeping_components p2) + unat (num_active_components p2) \<le> MAX_COMPONENTS"
    and cd2: "card {j. j < unat (Count p2) \<and> IsComponentActive (block p2 (control_table p2 j))} =
       unat (num_active_components p2)"
    unfolding store_inv_iff by blast+
  have tn2: "?n - 1 < unat (Count p2)" using \<open>0 < ?n\<close> unfolding c2 by linarith
  from store_inv_counts(1) [OF p2(2) tn2] last ac2 have na2: "0 < unat (num_active_components p2)"
    by simp
  then have "num_active_components p2 \<noteq> 0" by (simp add: unat_gt_0)
  then have una: "unat (num_active_components p2 - 1) = unat (num_active_components p2) - 1"
    by (rule unat_minus_one)
  have b': "unat (num_sleeping_components ?p') + unat (num_active_components ?p') \<le> MAX_COMPONENTS"
    using b2 una by simp
  have cnt': "unat (Count ?p') = ?n - 1"
    using unat_Count [OF b'] unat_Count [OF b2] una na2 c2 by simp
  have blk': "block ?p' = block p2" by simp
  have ct': "control_table ?p' = control_table p2" by simp
  have A': "{j. j < ?n - 1 \<and> IsComponentActive (block p2 (control_table p2 j))} =
      {j. j < ?n \<and> IsComponentActive (block p2 (control_table p2 j))} - {?n - 1}"
    using \<open>0 < ?n\<close> by auto
  have "?n - 1 \<in> {j. j < ?n \<and> IsComponentActive (block p2 (control_table p2 j))}"
    using \<open>0 < ?n\<close> last ac2 by simp
  then have "card ({j. j < ?n \<and> IsComponentActive (block p2 (control_table p2 j))} - {?n - 1}) =
      card {j. j < ?n \<and> IsComponentActive (block p2 (control_table p2 j))} - 1"
    by simp
  with cd2 una have card': "card {j. j < unat (Count ?p') \<and> IsComponentActive (block ?p' (control_table ?p' j))} =
       unat (num_active_components ?p')"
    unfolding cnt' blk' ct' A' c2 by simp
  have inv': "store_inv ?p'"
    unfolding store_inv_iff
  proof (intro conjI allI impI)
    show "unat (num_sleeping_components ?p') + unat (num_active_components ?p') \<le> MAX_COMPONENTS"
      by (rule b')
    show "card {j. j < unat (Count ?p') \<and> IsComponentActive (block ?p' (control_table ?p' j))} =
       unat (num_active_components ?p')" by (rule card')
  next
    fix j assume "j < unat (Count ?p')"
    then have "j < unat (Count p2)" unfolding cnt' c2 by linarith
    from store_inv_slot(1,2) [OF p2(2) this]
    show "IsPointerValid MAX_COMPONENTS (control_table ?p' j)"
      and "component (block ?p' (control_table ?p' j)) = Some (int j)"
      by simp_all
  qed
  have live': "live ?p' b = (live p b \<and> b \<noteq> x)" for b
  proof
    assume "live ?p' b"
    then obtain j where j: "j < ?n - 1" "control_table p2 j = b"
      unfolding live_iff cnt' ct' by blast
    then have j2: "j < unat (Count p2)" unfolding c2 by linarith
    with j(2) have "live p2 b" unfolding live_iff by blast
    moreover have "b \<noteq> x"
      using store_inv_inj [OF p2(2) j2 tn2] j last by auto
    ultimately show "live p b \<and> b \<noteq> x"
      by (simp add: p2(3) p1(3))
  next
    assume "live p b \<and> b \<noteq> x"
    then have "live p2 b" and nx: "b \<noteq> x" by (simp_all add: p2(3) p1(3))
    then obtain j where j: "j < unat (Count p2)" "control_table p2 j = b"
      unfolding live_iff by blast
    with nx last have "j \<noteq> ?n - 1" by auto
    with j(1) have "j < ?n - 1" unfolding c2 by linarith
    with j(2) show "live ?p' b"
      unfolding live_iff cnt' ct' by blast
  qed
  have rec': "record_of ?p' b = record_of p b" if lb: "live p b" and nx: "b \<noteq> x" for b
  proof -
    from lb have l2: "live p2 b" by (simp add: p2(3) p1(3))
    with p2(2) obtain j where j: "j < unat (Count p2)" "control_table p2 j = b"
      "component (block p2 b) = Some (int j)"
      by (rule live_slot)
    with nx last have "j \<noteq> ?n - 1" by auto
    with ut have "j \<noteq> unat ?t" by simp
    with j(3) have "record_of ?p' b = record_of p2 b"
      by (simp add: record_of_def)
    also have "\<dots> = record_of p1 b"
      using lb by (intro p2(4)) (simp add: p1(3))
    also have "\<dots> = record_of p b"
      using lb by (rule p1(4))
    finally show ?thesis .
  qed
  have nl: "block ?p' b = block p b" if "\<not> live p b" for b
  proof -
    from that have "\<not> live p1 b" by (simp add: p1(3))
    from p2(5) [OF this] p1(5) [OF that] show ?thesis by simp
  qed
  show ?thesis
  proof (rule that [of ?p'])
    show "DeleteInternal x p = Returned () ?p'" by (rule res)
    show "store_inv ?p'" by (rule inv')
    show "live ?p' b = (live p b \<and> b \<noteq> x)" for b by (rule live')
    show "record_of ?p' b = record_of p b" if "live p b" "b \<noteq> x" for b using that by (rule rec')
    show "block ?p' b = block p b" if "\<not> live p b" for b using that by (rule nl)
  qed
qed

lemma inv_pending_head [simp]:
  "store_inv (p\<lparr>pending_changes_head := h\<rparr>) = store_inv p"
  "live (p\<lparr>pending_changes_head := h\<rparr>) = live p"
  "record_of (p\<lparr>pending_changes_head := h\<rparr>) = record_of p"
  by (simp_all add: store_inv_def live_def record_of_def fun_eq_iff Count_def split: option.splits)

lemma store_inv_cong:
  assumes "store_inv p"
    and "num_sleeping_components p' = num_sleeping_components p"
    and "num_active_components p' = num_active_components p"
    and "control_table p' = control_table p"
    and "\<And>b. live p b \<Longrightarrow> block p' b = block p b"
  shows "store_inv p'"
proof -
  have c: "Count p' = Count p"
    using assms(2,3) by (simp add: Count_def)
  have blk: "block p' (control_table p j) = block p (control_table p j)" if "j < unat (Count p)" for j
    using that by (intro assms(5)) (auto simp: live_iff)
  have "{j. j < unat (Count p) \<and> IsComponentActive (block p' (control_table p j))} =
      {j. j < unat (Count p) \<and> IsComponentActive (block p (control_table p j))}"
    using blk by auto
  with assms(1) blk show ?thesis
    unfolding store_inv_iff c assms(2,3,4) by simp
qed

lemma apply_pending_inv:
  fixes p :: "'c ComponentPool"
  assumes inv: "store_inv p" and lv: "live p x"
  shows "(\<forall>e p'. apply_pending x p \<noteq> Thrown e p') \<and>
         (IsPendingDeletion (block p x) \<or> \<not> IsPendingActiveStateChange (block p x) \<or>
          GetPendingActiveStateChange (block p x) \<or> \<not> IsComponentActive (block p x) \<longrightarrow>
            (\<exists>p'. apply_pending x p = Returned () p')) \<and>
         (\<forall>u p'. apply_pending x p = Returned u p' \<longrightarrow>
            store_inv p' \<and>
            (\<forall>b. b \<noteq> x \<longrightarrow> live p' b = live p b) \<and>
            (\<forall>b. b \<noteq> x \<and> live p b \<longrightarrow> record_of p' b = record_of p b) \<and>
            (\<forall>b. b \<noteq> x \<and> \<not> live p b \<longrightarrow> block p' b = block p b) \<and>
            (if IsPendingDeletion (block p x)
             then \<not> live p' x \<and> block p' x =
                    \<lparr>next = pool_head (control_block_pool p), component = None,
                     tag = tag (block p x) + 1, flags = 0\<rparr> \<and>
                  pool_head (control_block_pool p') = x
             else live p' x \<and> record_of p' x = record_of p x \<and>
                  pool_head (control_block_pool p') = pool_head (control_block_pool p)))"
proof (cases "IsPendingDeletion (block p x)")
  case True
  from inv lv obtain s where s: "IsPointerValid MAX_COMPONENTS x"
    by (rule live_slot)
  from inv lv obtain p1 where p1: "DeleteInternal x p = Returned () p1"
    "store_inv p1" "\<And>b. live p1 b = (live p b \<and> b \<noteq> x)"
    "\<And>b. live p b \<Longrightarrow> b \<noteq> x \<Longrightarrow> record_of p1 b = record_of p b"
    "\<And>b. \<not> live p b \<Longrightarrow> block p1 b = block p b"
    by (rule DeleteInternal_inv) blast
  note fr = DeleteInternal_frame [OF p1(1)]
  define p' where "p' = p1\<lparr>control_block_pool :=
               (control_block_pool p1)
                 \<lparr>mem := (block p1)
                           (x := (destruct (block p1 x))\<lparr>next := pool_head (control_block_pool p1)\<rparr>),
                  pool_head := x\<rparr>\<rparr>"
  have res: "apply_pending x p = Returned () p'"
    using True p1(1) s by (simp add: apply_pending_def Deallocate_def Destroy_def p'_def)
  have blk: "block p' b = (if b = x then (destruct (block p1 x))\<lparr>next := pool_head (control_block_pool p1)\<rparr>
      else block p1 b)" for b
    by (simp add: p'_def)
  have nlx: "\<not> live p1 x" by (simp add: p1(3))
  have inv': "store_inv p'"
  proof (rule store_inv_cong [OF p1(2)])
    fix b assume "live p1 b"
    with nlx have "b \<noteq> x" by blast
    then show "block p' b = block p1 b" by (simp only: blk if_False)
  qed (simp_all add: p'_def)
  have live': "live p' b = live p1 b" for b
    by (simp add: live_def Count_def p'_def)
  have rec': "record_of p' b = record_of p1 b" if "b \<noteq> x" for b
    using that by (intro record_of_cong) (simp_all add: p'_def)
  have bx: "block p' x = \<lparr>next = pool_head (control_block_pool p), component = None,
                     tag = tag (block p x) + 1, flags = 0\<rparr>"
    by (simp add: blk fr destruct_def)
  have "store_inv p' \<and>
            (\<forall>b. b \<noteq> x \<longrightarrow> live p' b = live p b) \<and>
            (\<forall>b. b \<noteq> x \<and> live p b \<longrightarrow> record_of p' b = record_of p b) \<and>
            (\<forall>b. b \<noteq> x \<and> \<not> live p b \<longrightarrow> block p' b = block p b) \<and>
            \<not> live p' x \<and> block p' x =
                    \<lparr>next = pool_head (control_block_pool p), component = None,
                     tag = tag (block p x) + 1, flags = 0\<rparr> \<and>
                  pool_head (control_block_pool p') = x"
  proof (intro conjI allI impI)
    show "store_inv p'" by (rule inv')
    show "live p' b = live p b" if "b \<noteq> x" for b
      using that by (simp add: live' p1(3))
    show "record_of p' b = record_of p b" if "b \<noteq> x \<and> live p b" for b
      using that rec' [of b] p1(4) [of b] by simp
    show "block p' b = block p b" if "b \<noteq> x \<and> \<not> live p b" for b
      using that p1(5) [of b] by (simp add: blk)
    show "\<not> live p' x" by (simp add: live' nlx)
    show "block p' x = \<lparr>next = pool_head (control_block_pool p), component = None,
                     tag = tag (block p x) + 1, flags = 0\<rparr>" by (rule bx)
    show "pool_head (control_block_pool p') = x" by (simp add: p'_def)
  qed
  with True res show ?thesis
    by simp
next
  case nd: False
  show ?thesis
  proof (cases "IsPendingActiveStateChange (block p x)")
    case False
    with nd have "apply_pending x p = Returned () p"
      by (simp add: apply_pending_def)
    with nd inv lv show ?thesis by simp
  next
    case pc: True
    let ?v = "GetPendingActiveStateChange (block p x)"
    have ap: "apply_pending x p =
        (case SetActiveInternal x ?v p of
           Returned u p1 \<Rightarrow> Returned () (update_block x ClearPendingChanges p1)
         | Thrown e p1 \<Rightarrow> Thrown e p1
         | Undefined \<Rightarrow> Undefined)"
      using nd pc by (simp add: apply_pending_def)
    have step: "store_inv p1 \<and> (\<forall>b. live p1 b = live p b) \<and>
         (\<forall>b. live p b \<longrightarrow> record_of p1 b = record_of p b) \<and>
         (\<forall>b. \<not> live p b \<longrightarrow> block p1 b = block p b)"
      if r: "SetActiveInternal x ?v p = Returned u p1" for u p1
    proof (cases "?v = IsComponentActive (block p x)")
      case True
      with r have "p1 = p" by (simp add: SetActiveInternal_def)
      with inv show ?thesis by simp
    next
      case False
      show ?thesis
      proof (cases ?v)
        case True
        with False have "\<not> IsComponentActive (block p x)" by simp
        with inv lv obtain q where q: "SetActiveInternal x True p = Returned () q"
          "store_inv q" "\<And>b. live q b = live p b"
          "\<And>b. live p b \<Longrightarrow> record_of q b = record_of p b"
          "\<And>b. \<not> live p b \<Longrightarrow> block q b = block p b"
          by (rule SetActiveInternal_wake_inv) blast
        from q(1) r True have "q = p1" by simp
        with q(2-5) show ?thesis by blast
      next
        case v: False
        with False have "IsComponentActive (block p x)" by simp
        with inv lv r v show ?thesis
          using SetActiveInternal_sleep_inv [of p x u p1] by simp
      qed
    qed
    have ret: "\<exists>p1. SetActiveInternal x ?v p = Returned () p1"
      if "?v \<or> \<not> IsComponentActive (block p x)"
    proof (cases "?v = IsComponentActive (block p x)")
      case True
      then show ?thesis by (simp add: SetActiveInternal_def)
    next
      case False
      with that have v: "?v" and na: "\<not> IsComponentActive (block p x)" by auto
      from inv lv na obtain q where "SetActiveInternal x True p = Returned () q"
        by (rule SetActiveInternal_wake_inv) blast
      with v show ?thesis by simp
    qed
    have fin: "store_inv p' \<and>
            (\<forall>b. b \<noteq> x \<longrightarrow> live p' b = live p b) \<and>
            (\<forall>b. b \<noteq> x \<and> live p b \<longrightarrow> record_of p' b = record_of p b) \<and>
            (\<forall>b. b \<noteq> x \<and> \<not> live p b \<longrightarrow> block p' b = block p b) \<and>
            live p' x \<and> record_of p' x = record_of p x \<and>
                  pool_head (control_block_pool p') = pool_head (control_block_pool p)"
      if r: "apply_pending x p = Returned u p'" for u p'
    proof -
      from r ap obtain p1 where s1: "SetActiveInternal x ?v p = Returned () p1"
        and p': "p' = update_block x ClearPendingChanges p1"
        by (auto split: outcome.splits)
      note st = step [OF s1]
      have lx: "live p1 x" using st lv by simp
      have inv': "store_inv p'"
        unfolding store_inv_iff
      proof (intro conjI allI impI)
        from st have i1: "store_inv p1" by simp
        then have b: "unat (num_sleeping_components p1) + unat (num_active_components p1) \<le> MAX_COMPONENTS"
          and c: "card {j. j < unat (Count p1) \<and> IsComponentActive (block p1 (control_table p1 j))} =
              unat (num_active_components p1)"
          unfolding store_inv_iff by blast+
        show "unat (num_sleeping_components p') + unat (num_active_components p') \<le> MAX_COMPONENTS"
          using b by (simp add: p')
        have "IsComponentActive (block p' b) = IsComponentActive (block p1 b)" for b
          by (simp add: p')
        then show "card {j. j < unat (Count p') \<and> IsComponentActive (block p' (control_table p' j))} =
              unat (num_active_components p')"
          using c by (simp add: p')
        fix j assume "j < unat (Count p')"
        then have "j < unat (Count p1)" by (simp add: p')
        from store_inv_slot(1,2) [OF i1 this]
        show "IsPointerValid MAX_COMPONENTS (control_table p' j)"
          and "component (block p' (control_table p' j)) = Some (int j)"
          by (auto simp: p')
      qed
      have live': "live p' b = live p1 b" for b
        by (simp add: live_def p')
      have rec': "record_of p' b = record_of p1 b" for b
        by (rule record_of_cong) (simp_all add: p')
      have ph: "pool_head (control_block_pool p') = pool_head (control_block_pool p)"
        using SetActiveInternal_frame(5) [OF s1] by (simp add: p')
      have nl: "block p' b = block p b" if "b \<noteq> x \<and> \<not> live p b" for b
        using that st by (simp add: p')
      from inv' live' rec' ph nl st lv show ?thesis
        by simp
    qed
    have nt: "apply_pending x p \<noteq> Thrown e p'" for e p'
      unfolding ap by (simp split: outcome.splits)
    have rt: "\<exists>p'. apply_pending x p = Returned () p'"
      if "?v \<or> \<not> IsComponentActive (block p x)"
      using ret [OF that] unfolding ap by auto
    have A: "\<forall>e p'. apply_pending x p \<noteq> Thrown e p'"
      using nt by blast
    have B: "IsPendingDeletion (block p x) \<or> \<not> IsPendingActiveStateChange (block p x) \<or>
          GetPendingActiveStateChange (block p x) \<or> \<not> IsComponentActive (block p x) \<longrightarrow>
            (\<exists>p'. apply_pending x p = Returned () p')"
      using rt nd pc by blast
    have C: "\<forall>u p'. apply_pending x p = Returned u p' \<longrightarrow>
            store_inv p' \<and>
            (\<forall>b. b \<noteq> x \<longrightarrow> live p' b = live p b) \<and>
            (\<forall>b. b \<noteq> x \<and> live p b \<longrightarrow> record_of p' b = record_of p b) \<and>
            (\<forall>b. b \<noteq> x \<and> \<not> live p b \<longrightarrow> block p' b = block p b) \<and>
            (if IsPendingDeletion (block p x)
             then \<not> live p' x \<and> block p' x =
                    \<lparr>next = pool_head (control_block_pool p), component = None,
                     tag = tag (block p x) + 1, flags = 0\<rparr> \<and>
                  pool_head (control_block_pool p') = x
             else live p' x \<and> record_of p' x = record_of p x \<and>
                  pool_head (control_block_pool p') = pool_head (control_block_pool p))"
      unfolding if_not_P [OF nd] using fin by blast
    from A B C show ?thesis
      by (intro conjI)
  qed
qed

lemma apply_pending_step:
  fixes p :: "'c ComponentPool"
  assumes inv: "store_inv p" and lv: "live p x" and r: "apply_pending x p = Returned u p'"
  shows "store_inv p'"
    and "\<And>b. b \<noteq> x \<Longrightarrow> live p' b = live p b"
    and "\<And>b. b \<noteq> x \<Longrightarrow> live p b \<Longrightarrow> record_of p' b = record_of p b"
    and "\<And>b. b \<noteq> x \<Longrightarrow> \<not> live p b \<Longrightarrow> block p' b = block p b"
    and "IsPendingDeletion (block p x) \<Longrightarrow> \<not> live p' x"
    and "IsPendingDeletion (block p x) \<Longrightarrow> block p' x =
           \<lparr>next = pool_head (control_block_pool p), component = None,
            tag = tag (block p x) + 1, flags = 0\<rparr>"
    and "IsPendingDeletion (block p x) \<Longrightarrow> pool_head (control_block_pool p') = x"
    and "\<not> IsPendingDeletion (block p x) \<Longrightarrow> live p' x"
    and "\<not> IsPendingDeletion (block p x) \<Longrightarrow> record_of p' x = record_of p x"
    and "\<not> IsPendingDeletion (block p x) \<Longrightarrow>
           pool_head (control_block_pool p') = pool_head (control_block_pool p)"
proof -
  note ap = apply_pending_inv [OF inv lv, THEN conjunct2, THEN conjunct2, rule_format, OF r]
  from ap show "store_inv p'" by (rule conjunct1)
  note ap2 = ap [THEN conjunct2]
  from ap2 [THEN conjunct1] show "\<And>b. b \<noteq> x \<Longrightarrow> live p' b = live p b" by blast
  note ap3 = ap2 [THEN conjunct2]
  from ap3 [THEN conjunct1] show "\<And>b. b \<noteq> x \<Longrightarrow> live p b \<Longrightarrow> record_of p' b = record_of p b"
    by blast
  note ap4 = ap3 [THEN conjunct2]
  from ap4 [THEN conjunct1] show "\<And>b. b \<noteq> x \<Longrightarrow> \<not> live p b \<Longrightarrow> block p' b = block p b"
    by blast
  note ap5 = ap4 [THEN conjunct2]
  {
    assume d: "IsPendingDeletion (block p x)"
    note a = ap5 [unfolded if_P [OF d]]
    from a show "\<not> live p' x" by (rule conjunct1)
    from a [THEN conjunct2] show "block p' x =
           \<lparr>next = pool_head (control_block_pool p), component = None,
            tag = tag (block p x) + 1, flags = 0\<rparr>" by (rule conjunct1)
    from a [THEN conjunct2] show "pool_head (control_block_pool p') = x" by (rule conjunct2)
  }
  {
    assume d: "\<not> IsPendingDeletion (block p x)"
    note a = ap5 [unfolded if_not_P [OF d]]
    from a show "live p' x" by (rule conjunct1)
    from a [THEN conjunct2] show "record_of p' x = record_of p x" by (rule conjunct1)
    from a [THEN conjunct2] show "pool_head (control_block_pool p') = pool_head (control_block_pool p)"
      by (rule conjunct2)
  }
qed

lemma apply_pending_not_Thrown:
  "store_inv p \<Longrightarrow> live p x \<Longrightarrow> apply_pending x p \<noteq> Thrown e q"
  using apply_pending_inv [of p x, THEN conjunct1] by blast

lemma apply_pending_returns:
  assumes "store_inv p" and "live p x"
    and "IsPendingDeletion (block p x) \<or> \<not> IsPendingActiveStateChange (block p x) \<or>
          GetPendingActiveStateChange (block p x) \<or> \<not> IsComponentActive (block p x)"
  shows "\<exists>p'. apply_pending x p = Returned () p'"
  using apply_pending_inv [OF assms(1,2), THEN conjunct2, THEN conjunct1] assms(3) by (rule mp)

lemma sleep_due_cong: "flags b = flags b' \<Longrightarrow> sleep_due b = sleep_due b'"
  using flag_tests_cong [of b b'] by (simp add: sleep_due_def)

lemma IsPendingDeletion_cong: "flags b = flags b' \<Longrightarrow> IsPendingDeletion b = IsPendingDeletion b'"
  by (rule flag_tests_cong)

lemma applied_Nil: "store_inv p \<Longrightarrow> pending_changes_head p = Null \<Longrightarrow> applied p [] p"
  by (simp add: applied_def)

lemma applied_Cons:
  fixes p :: "'c ComponentPool"
  assumes inv: "store_inv p" and lx: "live p x" and nx: "x \<notin> set xs" and x0: "x \<noteq> Null"
    and ap: "apply_pending x (p\<lparr>pending_changes_head := h\<rparr>) = Returned u p2"
    and f: "applied p2 xs p'"
  shows "applied p (x # xs) p'"
proof -
  let ?p1 = "p\<lparr>pending_changes_head := h\<rparr>"
  have inv1: "store_inv ?p1" and lx1: "live ?p1 x"
    using inv lx by simp_all
  note st = apply_pending_step [OF inv1 lx1 ap, simplified]
  have fr: "next (block p2 b) = next (block p b) \<and>
        tag (block p2 b) = tag (block p b) \<and> flags (block p2 b) = flags (block p b)" if "b \<noteq> x" for b
    using apply_pending_frame [OF ap, of b] that by simp
  have flx: "flags (block p2 y) = flags (block p y)" if "y \<in> set xs" for y
    using that nx fr [of y] by auto
  have filt: "filter (\<lambda>y. IsPendingDeletion (block p2 y)) xs = filter (\<lambda>y. IsPendingDeletion (block p y)) xs"
    by (rule filter_cong [OF refl]) (rule IsPendingDeletion_cong, rule flx)
  from f have f1: "store_inv p'" "pending_changes_head p' = Null"
    and f4: "\<And>b. b \<notin> set xs \<Longrightarrow> live p' b = live p2 b"
    and f5: "\<And>b. live p2 b \<Longrightarrow> \<not> (b \<in> set xs \<and> IsPendingDeletion (block p2 b)) \<Longrightarrow>
           live p' b \<and> record_of p' b = record_of p2 b"
    and f6: "\<And>b. b \<in> set xs \<Longrightarrow> IsPendingDeletion (block p2 b) \<Longrightarrow>
           \<not> live p' b \<and> flags (block p' b) = 0 \<and> component (block p' b) = None \<and>
           tag (block p' b) = tag (block p2 b) + 1"
    and f7: "\<And>b. \<not> live p2 b \<Longrightarrow> block p' b = block p2 b"
    and f8: "lseg (block p') (pool_head (control_block_pool p'))
        (rev (filter (\<lambda>x. IsPendingDeletion (block p2 x)) xs)) (pool_head (control_block_pool p2))"
    unfolding applied_def by blast+
  have g4: "live p' b = live p b" if "b \<notin> set (x # xs)" for b
    using that f4 [of b] st(2) [of b] by simp
  have g5: "live p' b \<and> record_of p' b = record_of p b"
    if "live p b \<and> \<not> (b \<in> set (x # xs) \<and> IsPendingDeletion (block p b))" for b
  proof (cases "b = x")
    case True
    with that have "\<not> IsPendingDeletion (block p x)" by simp
    with st(8,9) have l2: "live p2 x" and rc: "record_of p2 x = record_of p x" by simp_all
    from nx have "\<not> (x \<in> set xs \<and> IsPendingDeletion (block p2 x))" by simp
    from f5 [OF l2 this] rc True show ?thesis by simp
  next
    case False
    with that st(2) [of b] st(3) [of b] have l2: "live p2 b" and rc: "record_of p2 b = record_of p b"
      by simp_all
    from that False fr [OF False] have "\<not> (b \<in> set xs \<and> IsPendingDeletion (block p2 b))"
      using IsPendingDeletion_cong [of "block p2 b" "block p b"] by simp
    from f5 [OF l2 this] rc show ?thesis by simp
  qed
  have g6: "\<not> live p' b \<and> flags (block p' b) = 0 \<and> component (block p' b) = None \<and>
           tag (block p' b) = tag (block p b) + 1"
    if "b \<in> set (x # xs) \<and> IsPendingDeletion (block p b)" for b
  proof (cases "b = x")
    case True
    with that st(5,6) have n2: "\<not> live p2 x" and bx: "block p2 x =
                \<lparr>next = pool_head (control_block_pool p), component = None,
                 tag = tag (block p x) + 1, flags = 0\<rparr>" by simp_all
    from f7 [OF n2] f4 [OF nx] n2 bx True show ?thesis by simp
  next
    case False
    with that have bxs: "b \<in> set xs" by simp
    from that fr [OF False] have "IsPendingDeletion (block p2 b)"
      using IsPendingDeletion_cong [of "block p2 b" "block p b"] by simp
    from f6 [OF bxs this] fr [OF False] show ?thesis by simp
  qed
  have g7: "block p' b = block p b" if "\<not> live p b" for b
  proof -
    from that lx have "b \<noteq> x" by blast
    with that st(2) [of b] st(4) [of b] f7 [of b] show ?thesis by simp
  qed
  have g8: "lseg (block p') (pool_head (control_block_pool p'))
        (rev (filter (\<lambda>x. IsPendingDeletion (block p x)) (x # xs))) (pool_head (control_block_pool p))"
  proof (cases "IsPendingDeletion (block p x)")
    case False
    with f8 st(10) show ?thesis by (simp add: filt)
  next
    case True
    with st(5,6,7) have n2: "\<not> live p2 x" and bx: "block p2 x =
                \<lparr>next = pool_head (control_block_pool p), component = None,
                 tag = tag (block p x) + 1, flags = 0\<rparr>"
      and ph: "pool_head (control_block_pool p2) = x" by simp_all
    from f7 [OF n2] bx have "next (block p' x) = pool_head (control_block_pool p)" by simp
    with x0 have "lseg (block p') x [x] (pool_head (control_block_pool p))" by simp
    with f8 True show ?thesis
      unfolding filt ph by (auto simp: lseg_append)
  qed
  show ?thesis
    unfolding applied_def
  proof (intro conjI allI impI)
    show "store_inv p'" "pending_changes_head p' = Null" by fact+
    show "live p' b = live p b" if "b \<notin> set (x # xs)" for b using that by (rule g4)
    show "live p' b" "record_of p' b = record_of p b"
      if "live p b \<and> \<not> (b \<in> set (x # xs) \<and> IsPendingDeletion (block p b))" for b
      using g5 [OF that] by blast+
    show "\<not> live p' b" "flags (block p' b) = 0" "component (block p' b) = None"
      "tag (block p' b) = tag (block p b) + 1"
      if "b \<in> set (x # xs) \<and> IsPendingDeletion (block p b)" for b using g6 [OF that] by blast+
    show "block p' b = block p b" if "\<not> live p b" for b using that by (rule g7)
    show "lseg (block p') (pool_head (control_block_pool p'))
        (rev (filter (\<lambda>x. IsPendingDeletion (block p x)) (x # xs))) (pool_head (control_block_pool p))"
      by (rule g8)
  qed
qed

lemma LateUpdate_inv:
  fixes p :: "'c ComponentPool"
  assumes "store_inv p" and "lseg (block p) (pending_changes_head p) xs Null" and "distinct xs"
    and "\<forall>x\<in>set xs. live p x"
  shows "\<exists>r. LateUpdate p = Some r \<and> (\<forall>e p'. r \<noteq> Thrown e p') \<and>
      ((\<forall>x\<in>set xs. \<not> sleep_due (block p x)) \<longrightarrow> (\<exists>p'. r = Returned xs p')) \<and>
      (\<forall>tr p'. r = Returned tr p' \<longrightarrow> tr = xs \<and> applied p xs p')"
  using assms
proof (induction xs arbitrary: p)
  case Nil
  then have "LateUpdate p = Some (Returned [] p)" and "applied p [] p"
    by (simp_all add: LateUpdate_Null applied_Nil)
  then show ?case by simp
next
  case (Cons x xs)
  let ?p1 = "p\<lparr>pending_changes_head := next (block p x)\<rparr>"
  from Cons.prems(2) have hd: "pending_changes_head p = x" "x \<noteq> Null"
    and rest: "lseg (block p) (next (block p x)) xs Null"
    by simp_all
  from Cons.prems(3) have nx: "x \<notin> set xs" and dxs: "distinct xs" by simp_all
  from Cons.prems(4) have lx: "live p x" and lxs: "\<forall>y\<in>set xs. live p y" by simp_all
  have inv1: "store_inv ?p1" and lx1: "live ?p1 x"
    using Cons.prems(1) lx by simp_all
  have returns: "\<exists>q. apply_pending x ?p1 = Returned () q" if "\<not> sleep_due (block p x)"
    using that by (intro apply_pending_returns [OF inv1 lx1]) (auto simp: sleep_due_def)
  show ?case
  proof (cases "apply_pending x ?p1")
    case (Thrown e q)
    with apply_pending_not_Thrown [OF inv1 lx1] show ?thesis by blast
  next
    case Undefined
    with returns have sd: "sleep_due (block p x)" by auto
    from Undefined hd have "LateUpdate p = Some Undefined"
      by (simp add: LateUpdate_pop)
    with sd show ?thesis by simp
  next
    case (Returned u p2)
    note st = apply_pending_step [OF inv1 lx1 Returned, simplified]
    have fr: "next (block p2 b) = next (block p b) \<and> flags (block p2 b) = flags (block p b)"
      if "b \<noteq> x" for b
      using apply_pending_frame [OF Returned, of b] that by simp
    have h2: "pending_changes_head p2 = next (block p x)"
      using apply_pending_frame [OF Returned, of x] by simp
    from nx have "\<forall>y\<in>set xs. next (block p2 y) = next (block p y)"
      using fr by metis
    with rest h2 have seg2: "lseg (block p2) (pending_changes_head p2) xs Null"
      using lseg_frame [of xs "block p2" "block p"] by simp
    have lxs2: "\<forall>y\<in>set xs. live p2 y"
      using lxs nx st(2) by metis
    have flx: "flags (block p2 y) = flags (block p y)" if "y \<in> set xs" for y
      using that nx fr [of y] by auto
    have sd: "(\<forall>y\<in>set xs. \<not> sleep_due (block p2 y)) = (\<forall>y\<in>set xs. \<not> sleep_due (block p y))"
      using sleep_due_cong [OF flx] by blast
    from Cons.IH [OF st(1) seg2 dxs lxs2] obtain r2 where
      R: "LateUpdate p2 = Some r2 \<and> (\<forall>e p'. r2 \<noteq> Thrown e p') \<and>
        ((\<forall>x\<in>set xs. \<not> sleep_due (block p2 x)) \<longrightarrow> (\<exists>p'. r2 = Returned xs p')) \<and>
        (\<forall>tr p'. r2 = Returned tr p' \<longrightarrow> tr = xs \<and> applied p2 xs p')"
      by (rule exE)
    note r2 = R [THEN conjunct1]
    note nt2 = R [THEN conjunct2, THEN conjunct1, rule_format]
    note rt2 = R [THEN conjunct2, THEN conjunct2, THEN conjunct1, THEN mp]
    note fin2 = R [THEN conjunct2, THEN conjunct2, THEN conjunct2, rule_format]
    let ?r = "case r2 of Returned cs p3 \<Rightarrow> Returned (x # cs) p3
                | Thrown e p3 \<Rightarrow> Thrown e p3 | Undefined \<Rightarrow> Undefined"
    have lu: "LateUpdate p = Some ?r"
      using hd Returned r2 by (cases r2) (simp_all add: LateUpdate_pop)
    show ?thesis
    proof (intro exI [of _ ?r] conjI allI impI)
      show "LateUpdate p = Some ?r" by (rule lu)
      show "?r \<noteq> Thrown e p'" for e p'
        using nt2 by (cases r2) simp_all
      show "\<exists>p'. ?r = Returned (x # xs) p'" if "\<forall>y\<in>set (x # xs). \<not> sleep_due (block p y)"
      proof -
        from that sd have "\<forall>y\<in>set xs. \<not> sleep_due (block p2 y)" by simp
        from rt2 [OF this] show ?thesis by auto
      qed
      {
        fix tr p' assume r: "?r = Returned tr p'"
        then obtain tr2 where r2r: "r2 = Returned tr2 p'" and tr: "tr = x # tr2"
          by (cases r2) simp_all
        from fin2 [OF r2r] tr show "tr = x # xs" by simp
        from fin2 [OF r2r] have "applied p2 xs p'" by simp
        with Cons.prems(1) lx nx hd(2) Returned show "applied p (x # xs) p'"
          by (rule applied_Cons)
      }
    qed
  qed
qed

section \<open>A request that is not looked at\<close>

lemma withdraw_tests [simp]:
  "IsComponentActive (withdraw b) = IsComponentActive b"
  "IsPendingDeletion (withdraw b) = IsPendingDeletion b"
  "\<not> IsPendingActiveStateChange (withdraw b)"
  by (simp_all add: withdraw_def flag_tests flag_writes)

lemma withdraw_fields [simp]:
  "next (withdraw b) = next b"
  "tag (withdraw b) = tag b"
  "component (withdraw b) = component b"
  "withdraw (b\<lparr>component := k\<rparr>) = (withdraw b)\<lparr>component := k\<rparr>"
  "withdraw (b\<lparr>next := n\<rparr>) = (withdraw b)\<lparr>next := n\<rparr>"
  "destruct (withdraw b) = destruct b"
  by (simp_all add: withdraw_def destruct_def)

lemma clear_bits_commute:
  fixes f a b i k :: FlagType
  assumes "\<And>n. bit k n \<Longrightarrow> \<not> bit a n \<and> \<not> bit b n"
  shows "((((f AND NOT a) AND NOT b) AND NOT i) OR k) = ((((f AND NOT i) OR k) AND NOT a) AND NOT b)"
proof (rule bit_word_eqI)
  fix n assume "n < LENGTH(8)"
  show "bit ((((f AND NOT a) AND NOT b) AND NOT i) OR k) n =
      bit ((((f AND NOT i) OR k) AND NOT a) AND NOT b) n"
    using assms [of n] \<open>n < LENGTH(8)\<close> by (auto simp: bit_simps)
qed

lemma withdraw_SetComponentActive [simp]:
  "SetComponentActive v (withdraw b) = withdraw (SetComponentActive v b)"
proof -
  let ?k = "if v then IS_ACTIVE else 0"
  have "\<not> bit PENDING_ACTIVE n \<and> \<not> bit PENDING_SLEEP n" if "bit ?k n" for n
    using that
    by (cases v) (simp_all add: IS_ACTIVE_def PENDING_ACTIVE_def PENDING_SLEEP_def bit_flag1 bit_flag2 bit_flag4)
  then have eq: "((((flags b AND NOT PENDING_ACTIVE) AND NOT PENDING_SLEEP) AND NOT IS_ACTIVE) OR ?k) =
      ((((flags b AND NOT IS_ACTIVE) OR ?k) AND NOT PENDING_ACTIVE) AND NOT PENDING_SLEEP)"
    by (rule clear_bits_commute)
  have fw: "flags (withdraw b') = (flags b' AND NOT PENDING_ACTIVE) AND NOT PENDING_SLEEP" for b'
    by (simp add: withdraw_def)
  have "flags (SetComponentActive v (withdraw b)) = flags (withdraw (SetComponentActive v b))"
    by (simp only: flags_writes(1) fw eq)
  then show ?thesis
    by (intro crcb.equality) (simp_all add: withdraw_def)
qed

lemma store_eqI:
  fixes p q :: "'c ComponentPool"
  assumes "components p = components q" and "control_table p = control_table q"
    and "pending_changes_head p = pending_changes_head q"
    and "num_active_components p = num_active_components q"
    and "num_sleeping_components p = num_sleeping_components q"
    and "pool_head (control_block_pool p) = pool_head (control_block_pool q)"
    and "\<And>b. block p b = block q b"
  shows "p = q"
proof -
  from assms(7) have "mem (control_block_pool p) = mem (control_block_pool q)"
    by (simp add: block_def fun_eq_iff del: mem_control_block_pool)
  with assms(6) have "control_block_pool p = control_block_pool q"
    by (cases "control_block_pool p"; cases "control_block_pool q") simp
  with assms(1-5) show ?thesis
    by (cases p; cases q) simp
qed

lemma SwapComponents_withdraw:
  "SwapComponents l t (update_block c withdraw p) =
     map_outcome id (update_block c withdraw) (SwapComponents l t p)"
proof (cases "l \<noteq> t \<and> unat l < MAX_COMPONENTS \<and> unat t < MAX_COMPONENTS \<and>
    control_table p (unat l) \<noteq> Null \<and> control_table p (unat t) \<noteq> Null")
  case False
  then show ?thesis
    by (auto simp: SwapComponents_def Let_def)
next
  case True
  let ?bl = "control_table p (unat l)" and ?bt = "control_table p (unat t)"
  let ?cs = "(components p)(unat l := components p (unat t), unat t := components p (unat l))"
  let ?ct = "(control_table p)(unat l := ?bt, unat t := ?bl)"
  have 1: "SwapComponents l t p = Returned ()
      ((update_block ?bt (\<lambda>b. b\<lparr>component := component (block p ?bl)\<rparr>)
         (update_block ?bl (\<lambda>b. b\<lparr>component := component (block p ?bt)\<rparr>) p))
       \<lparr>components := ?cs, control_table := ?ct\<rparr>)"
    using True by (simp add: SwapComponents_def Let_def)
  have 2: "SwapComponents l t (update_block c withdraw p) = Returned ()
      ((update_block ?bt (\<lambda>b. b\<lparr>component := component (block p ?bl)\<rparr>)
         (update_block ?bl (\<lambda>b. b\<lparr>component := component (block p ?bt)\<rparr>)
            (update_block c withdraw p)))
       \<lparr>components := ?cs, control_table := ?ct\<rparr>)"
    using True by (simp add: SwapComponents_def Let_def)
  have "(update_block ?bt (\<lambda>b. b\<lparr>component := component (block p ?bl)\<rparr>)
         (update_block ?bl (\<lambda>b. b\<lparr>component := component (block p ?bt)\<rparr>)
            (update_block c withdraw p)))
       \<lparr>components := ?cs, control_table := ?ct\<rparr> =
     update_block c withdraw
      ((update_block ?bt (\<lambda>b. b\<lparr>component := component (block p ?bl)\<rparr>)
         (update_block ?bl (\<lambda>b. b\<lparr>component := component (block p ?bt)\<rparr>) p))
       \<lparr>components := ?cs, control_table := ?ct\<rparr>)"
    by (rule store_eqI) simp_all
  with 1 2 show ?thesis by simp
qed

lemma SetActiveInternal_withdraw:
  "SetActiveInternal x v (update_block c withdraw p) =
     map_outcome id (update_block c withdraw) (SetActiveInternal x v p)"
proof (cases "v = IsComponentActive (block p x)")
  case True
  then show ?thesis by (simp add: SetActiveInternal_def)
next
  case nv: False
  have up: "update_block x (SetComponentActive w)
        ((update_block c withdraw q)\<lparr>num_sleeping_components := a, num_active_components := b\<rparr>) =
      update_block c withdraw (update_block x (SetComponentActive w)
        (q\<lparr>num_sleeping_components := a, num_active_components := b\<rparr>))"
    for q :: "'c ComponentPool" and a b w
    by (rule store_eqI) simp_all
  have ac: "IsComponentActive (block (update_block c withdraw p) x) = IsComponentActive (block p x)"
    and co: "component (block (update_block c withdraw p) x) = component (block p x)"
    by simp_all
  show ?thesis
  proof (cases "component (block p x)")
    case None
    with nv show ?thesis
      by (simp add: SetActiveInternal_def ac co del: block_update_block)
  next
    case (Some j)
    let ?l = "if v then word_of_int (j - 0) else word_of_int (j - int (unat (num_sleeping_components p))) :: size_t"
    let ?t = "if v then num_sleeping_components p - 1 else num_sleeping_components p"
    show ?thesis
    proof (cases "SwapComponents ?l ?t p")
      case (Returned u p1)
      with nv Some SwapComponents_withdraw [of ?l ?t c p] show ?thesis
        by (cases v) (simp_all add: SetActiveInternal_def Let_def up ac co del: block_update_block)
    next
      case (Thrown e p1)
      then show ?thesis by simp
    next
      case Undefined
      with nv Some SwapComponents_withdraw [of ?l ?t c p] show ?thesis
        by (cases v) (simp_all add: SetActiveInternal_def Let_def ac co del: block_update_block)
    qed
  qed
qed

lemma DeleteInternal_withdraw:
  "DeleteInternal x (update_block c withdraw p) =
     map_outcome id (update_block c withdraw) (DeleteInternal x p)"
proof (cases "SetActiveInternal x True p")
  case (Returned u p1)
  have co: "component (block (update_block c withdraw p1) x) = component (block p1 x)"
    by simp
  show ?thesis
  proof (cases "component (block p1 x)")
    case None
    with Returned show ?thesis
      by (simp add: DeleteInternal_def SetActiveInternal_withdraw co del: block_update_block)
  next
    case (Some j)
    show ?thesis
    proof (cases "SwapComponents (word_of_int (j - 0)) (Count p1 - 1) p1")
      case R2: (Returned u2 p2)
      have "(update_block c withdraw p2)\<lparr>components := (components p2)(unat (Count p1 - 1) := None),
                                  num_active_components := num_active_components p2 - 1\<rparr> =
          update_block c withdraw (p2\<lparr>components := (components p2)(unat (Count p1 - 1) := None),
                                  num_active_components := num_active_components p2 - 1\<rparr>)"
        by (rule store_eqI) simp_all
      with Returned Some R2 SwapComponents_withdraw [of "word_of_int (j - 0)" "Count p1 - 1" c p1]
      show ?thesis
        by (simp add: DeleteInternal_def SetActiveInternal_withdraw Let_def co del: block_update_block)
    next
      case (Thrown e p2)
      then show ?thesis by simp
    next
      case Undefined
      with Returned Some SwapComponents_withdraw [of "word_of_int (j - 0)" "Count p1 - 1" c p1]
      show ?thesis
        by (simp add: DeleteInternal_def SetActiveInternal_withdraw Let_def co del: block_update_block)
    qed
  qed
next
  case (Thrown e p1)
  then show ?thesis by simp
next
  case Undefined
  then show ?thesis
    by (simp add: DeleteInternal_def SetActiveInternal_withdraw)
qed

lemma apply_pending_withdraw:
  assumes "x \<noteq> c" and "IsPointerValid MAX_COMPONENTS x"
  shows "apply_pending x (update_block c withdraw p) =
     map_outcome id (update_block c withdraw) (apply_pending x p)"
proof (cases "IsPendingDeletion (block p x)")
  case True
  show ?thesis
  proof (cases "DeleteInternal x p")
    case (Returned u p1)
    have "(update_block c withdraw p1)\<lparr>control_block_pool :=
            (control_block_pool (update_block c withdraw p1))
              \<lparr>mem := (block (update_block c withdraw p1))
                    (x := (destruct (block (update_block c withdraw p1) x))
                            \<lparr>next := pool_head (control_block_pool (update_block c withdraw p1))\<rparr>),
               pool_head := x\<rparr>\<rparr> =
      update_block c withdraw (p1\<lparr>control_block_pool :=
            (control_block_pool p1)
              \<lparr>mem := (block p1)
                    (x := (destruct (block p1 x))\<lparr>next := pool_head (control_block_pool p1)\<rparr>),
               pool_head := x\<rparr>\<rparr>)"
      using assms(1) by (intro store_eqI) simp_all
    with True Returned assms show ?thesis
      by (simp add: apply_pending_def DeleteInternal_withdraw Deallocate_def Destroy_def)
  next
    case (Thrown e p1)
    then show ?thesis by simp
  next
    case Undefined
    with True assms show ?thesis
      by (simp add: apply_pending_def DeleteInternal_withdraw)
  qed
next
  case nd: False
  show ?thesis
  proof (cases "IsPendingActiveStateChange (block p x)")
    case False
    with nd assms show ?thesis by (simp add: apply_pending_def)
  next
    case True
    have up: "update_block x ClearPendingChanges (update_block c withdraw q) =
      update_block c withdraw (update_block x ClearPendingChanges q)" for q :: "'c ComponentPool"
      using assms(1) by (intro store_eqI) simp_all
    from nd True assms(1) show ?thesis
      by (cases "SetActiveInternal x (GetPendingActiveStateChange (block p x)) p")
        (simp_all add: apply_pending_def SetActiveInternal_withdraw up)
  qed
qed

lemma apply_pending_withdrawn:
  assumes "IsPendingDeletion (block p c)" and "IsPointerValid MAX_COMPONENTS c"
  shows "apply_pending c (update_block c withdraw p) = apply_pending c p"
proof (cases "DeleteInternal c p")
  case (Returned u p1)
  have "(update_block c withdraw p1)\<lparr>control_block_pool :=
            (control_block_pool (update_block c withdraw p1))
              \<lparr>mem := (block (update_block c withdraw p1))
                    (c := (destruct (block (update_block c withdraw p1) c))
                            \<lparr>next := pool_head (control_block_pool (update_block c withdraw p1))\<rparr>),
               pool_head := c\<rparr>\<rparr> =
      p1\<lparr>control_block_pool :=
            (control_block_pool p1)
              \<lparr>mem := (block p1)
                    (c := (destruct (block p1 c))\<lparr>next := pool_head (control_block_pool p1)\<rparr>),
               pool_head := c\<rparr>\<rparr>"
    by (intro store_eqI) simp_all
  with assms Returned show ?thesis
    by (simp add: apply_pending_def DeleteInternal_withdraw Deallocate_def Destroy_def)
next
  case (Thrown e p1)
  then show ?thesis by simp
next
  case Undefined
  with assms show ?thesis
    by (simp add: apply_pending_def DeleteInternal_withdraw)
qed

lemma apply_pending_valid_not_Thrown:
  "IsPointerValid MAX_COMPONENTS x \<Longrightarrow> apply_pending x p \<noteq> Thrown e q"
  by (auto simp: apply_pending_def Deallocate_def Destroy_def split: outcome.splits)

lemma LateUpdate_withdraw:
  fixes p :: "'c ComponentPool"
  assumes "lseg (block p) (pending_changes_head p) xs Null" and "distinct xs" and "c \<in> set xs"
    and "\<forall>x\<in>set xs. IsPointerValid MAX_COMPONENTS x" and "IsPendingDeletion (block p c)"
  shows "LateUpdate (update_block c withdraw p) = LateUpdate p"
  using assms
proof (induction xs arbitrary: p)
  case Nil
  then show ?case by simp
next
  case (Cons x xs)
  let ?p1 = "p\<lparr>pending_changes_head := next (block p x)\<rparr>"
  let ?U = "update_block c withdraw"
  from Cons.prems(1) have hd: "pending_changes_head p = x" "x \<noteq> Null"
    and rest: "lseg (block p) (next (block p x)) xs Null"
    by simp_all
  from Cons.prems(2) have nx: "x \<notin> set xs" and dxs: "distinct xs" by simp_all
  from Cons.prems(4) have vx: "IsPointerValid MAX_COMPONENTS x"
    and vxs: "\<forall>y\<in>set xs. IsPointerValid MAX_COMPONENTS y" by simp_all
  have hU: "pending_changes_head (?U p) = x" using hd by simp
  have nU: "next (block (?U p) x) = next (block p x)" by simp
  have p1: "(?U p)\<lparr>pending_changes_head := next (block p x)\<rparr> = ?U ?p1"
    by (intro store_eqI) simp_all
  note popU = LateUpdate_pop [of "?U p", unfolded hU nU p1, OF hd(2)]
  note pop = LateUpdate_pop [of p, unfolded hd(1), OF hd(2)]
  show ?case
  proof (cases "x = c")
    case True
    with Cons.prems(5) vx have "apply_pending x (?U ?p1) = apply_pending x ?p1"
      by (simp add: apply_pending_withdrawn)
    then show ?thesis
      unfolding popU pop by simp
  next
    case False
    with Cons.prems(3) have cxs: "c \<in> set xs" by simp
    note com = apply_pending_withdraw [OF False vx, of ?p1]
    show ?thesis
    proof (cases "apply_pending x ?p1")
      case (Thrown e q)
      with apply_pending_valid_not_Thrown [OF vx] show ?thesis by blast
    next
      case Undefined
      with com show ?thesis
        unfolding popU pop by simp
    next
      case (Returned u p2)
      have fr: "b \<noteq> x \<Longrightarrow> next (block p2 b) = next (block p b) \<and>
          flags (block p2 b) = flags (block p b)" for b
        using apply_pending_frame [OF Returned, of b] by simp
      have h2: "pending_changes_head p2 = next (block p x)"
        using apply_pending_frame [OF Returned, of x] by simp
      from nx have "\<forall>y\<in>set xs. next (block p2 y) = next (block p y)"
        using fr by metis
      with rest h2 have seg2: "lseg (block p2) (pending_changes_head p2) xs Null"
        using lseg_frame [of xs "block p2" "block p"] by simp
      from False fr [of c] Cons.prems(5) have d2: "IsPendingDeletion (block p2 c)"
        using flag_tests_cong(2) [of "block p2 c" "block p c"] by simp
      from Cons.IH [OF seg2 dxs cxs vxs d2] have "LateUpdate (?U p2) = LateUpdate p2" .
      with com Returned show ?thesis
        unfolding popU pop by simp
    qed
  qed
qed

section \<open>The bookkeeping across the public functions\<close>

text \<open>
  The bookkeeping holds in a new store. \<^verbatim>\<open>SetActive\<close>, \<^verbatim>\<open>Delete\<close> and \<^verbatim>\<open>Update\<close> keep it, and
  so does \<^verbatim>\<open>Create\<close> when the head of the free list is a block of the pool that is not live;
  a checkpoint that returns keeps it by \<open>LateUpdate_inv\<close>.
\<close>

lemma store_inv_fresh: "store_inv (ComponentPool outside)"
  by (simp add: store_inv_def ComponentPool_def Count_def MAX_COMPONENTS_def)

lemma request_store_inv:
  fixes p :: "'c ComponentPool"
  assumes "store_inv p"
    and "\<And>b. component (f b) = component b" and "\<And>b. IsComponentActive (f b) = IsComponentActive b"
  shows "store_inv (update_block c f (if q then push_pending c p else p))"
    and "live (update_block c f (if q then push_pending c p else p)) = live p"
    and "record_of (update_block c f (if q then push_pending c p else p)) = record_of p"
proof -
  let ?p' = "update_block c f (if q then push_pending c p else p)"
  have co: "component (block ?p' b) = component (block p b)" for b
    by (simp add: assms(2))
  have ac: "IsComponentActive (block ?p' b) = IsComponentActive (block p b)" for b
    by (simp add: assms(3))
  have f: "num_sleeping_components ?p' = num_sleeping_components p"
    "num_active_components ?p' = num_active_components p"
    "control_table ?p' = control_table p" "components ?p' = components p" "Count ?p' = Count p"
    by (simp_all add: Count_def)
  from assms(1) show "store_inv ?p'"
    unfolding store_inv_iff f co ac .
  show "live ?p' = live p"
    unfolding live_def fun_eq_iff f by simp
  show "record_of ?p' = record_of p"
    unfolding record_of_def fun_eq_iff co f by simp
qed

lemma SetActive_store_inv:
  assumes "SetActive r v p = Returned u p'" and "store_inv p"
  shows "store_inv p' \<and> live p' = live p \<and> record_of p' = record_of p"
  using assms(1)
proof (cases rule: SetActive_cases)
  case same
  with assms(2) show ?thesis by simp
next
  case marked
  show ?thesis
    unfolding marked(4) using assms(2) by (intro conjI request_store_inv) simp_all
qed

lemma Delete_store_inv:
  assumes "Delete r p = Returned u p'" and "store_inv p"
  shows "store_inv p' \<and> live p' = live p \<and> record_of p' = record_of p"
  using assms(1)
proof (cases rule: Delete_cases)
  case 1
  show ?thesis
    unfolding 1(3) using assms(2) by (intro conjI request_store_inv) simp_all
qed

lemma Update_loop_fields:
  "Update_loop tick is p = Returned cs p' \<Longrightarrow>
     control_table p' = control_table p \<and> num_sleeping_components p' = num_sleeping_components p \<and>
     num_active_components p' = num_active_components p"
proof (induction "is" arbitrary: p cs)
  case Nil
  then show ?case by simp
next
  case (Cons i rest)
  from Cons.prems obtain c cs' where
    "Update_loop tick rest (p\<lparr>components := (components p)(i := Some (tick c))\<rparr>) = Returned cs' p'"
    by (auto split: if_splits option.splits outcome.splits)
  from Cons.IH [OF this] show ?case by simp
qed

lemma Update_store_inv:
  assumes "Update tick p = Returned cs p'" and "store_inv p"
  shows "store_inv p' \<and> live p' = live p"
proof -
  from assms(1) have f: "control_table p' = control_table p"
    "num_sleeping_components p' = num_sleeping_components p"
    "num_active_components p' = num_active_components p"
    using Update_loop_fields [of tick _ p cs p'] by (simp_all add: Update_def Let_def)
  from assms(1) have b: "block p' = block p"
    using Update_block by blast
  from f have c: "Count p' = Count p" by (simp add: Count_def)
  from assms(2) show ?thesis
    unfolding store_inv_iff live_def fun_eq_iff f b c by simp
qed

lemma Create_store_inv:
  fixes p :: "'c ComponentPool"
  assumes cr: "Create c p = Returned r p'" and inv: "store_inv p"
    and v: "IsPointerValid MAX_COMPONENTS (pool_head (control_block_pool p))"
    and nl: "\<not> live p (pool_head (control_block_pool p))"
  shows "store_inv p' \<and> context_ptr r = pool_head (control_block_pool p) \<and>
         (\<forall>b. live p' b \<longleftrightarrow> live p b \<or> b = context_ptr r) \<and>
         (\<forall>b. live p b \<longrightarrow> record_of p' b = record_of p b) \<and>
         record_of p' (context_ptr r) = c"
proof -
  let ?h = "pool_head (control_block_pool p)"
  let ?n = "unat (Count p)"
  from inv have b: "unat (num_sleeping_components p) + unat (num_active_components p) \<le> MAX_COMPONENTS"
    and sl: "\<forall>j < ?n. IsPointerValid MAX_COMPONENTS (control_table p j) \<and>
          component (block p (control_table p j)) = Some (int j)"
    and cd: "card {j. j < ?n \<and> IsComponentActive (block p (control_table p j))} =
       unat (num_active_components p)"
    unfolding store_inv_iff by blast+
  note uc = unat_Count [OF b]
  from v have h0: "?h \<noteq> Null" by (rule IsPointerValid_not_Null)
  from cr have ne: "Count p \<noteq> of_nat MAX_COMPONENTS"
    by (auto simp: Create_def Let_def split: if_splits)
  have "?n \<noteq> MAX_COMPONENTS"
  proof
    assume "?n = MAX_COMPONENTS"
    then have "of_nat ?n = (of_nat MAX_COMPONENTS :: size_t)" by simp
    with ne show False by simp
  qed
  with uc b have lt: "?n < MAX_COMPONENTS" by linarith
  from cr ne h0 lt obtain rec where c: "c = Some rec"
    and p': "p' = p\<lparr>components := (components p)(?n := Some rec),
                 control_block_pool := Construct ?h (Some (int ?n))
                    ((control_block_pool p)\<lparr>pool_head := next (block p ?h)\<rparr>),
                 control_table := (control_table p)(?n := ?h),
                 num_active_components := num_active_components p + 1\<rparr>"
    and r: "context_ptr r = ?h"
    by (auto simp: Create_def Allocate_def Deallocate_def Let_def reference_to_def
        split: if_splits option.splits outcome.splits)
  have blk: "block p' x = (if x = ?h then construct (Some (int ?n)) (block p ?h) else block p x)" for x
    by (simp add: p' Construct_def block_def del: mem_control_block_pool)
  from uc lt have "unat (num_active_components p) + unat (1 :: size_t) < 2 ^ LENGTH(64)"
    by (simp add: MAX_COMPONENTS_def)
  then have una: "unat (num_active_components p + 1) = unat (num_active_components p) + 1"
    using unat_add_lem [THEN iffD1, of "num_active_components p" 1] by simp
  have b': "unat (num_sleeping_components p') + unat (num_active_components p') \<le> MAX_COMPONENTS"
    using una uc lt by (simp add: p')
  have n': "unat (Count p') = Suc ?n"
    using unat_Count [OF b'] una uc by (simp add: p')
  have tab: "control_table p' j = (if j = ?n then ?h else control_table p j)" for j
    by (simp add: p')
  have nh: "control_table p j \<noteq> ?h" if "j < ?n" for j
    using nl that unfolding live_iff by blast
  have A: "{j. j < Suc ?n \<and> IsComponentActive (block p' (control_table p' j))} =
      insert ?n {j. j < ?n \<and> IsComponentActive (block p (control_table p j))}"
    using nh by (auto simp: tab blk less_Suc_eq)
  have inv': "store_inv p'"
    unfolding store_inv_iff n'
  proof (intro conjI allI impI)
    show "unat (num_sleeping_components p') + unat (num_active_components p') \<le> MAX_COMPONENTS"
      by (rule b')
    show "card {j. j < Suc ?n \<and> IsComponentActive (block p' (control_table p' j))} =
       unat (num_active_components p')"
      unfolding A using cd una by (simp add: p')
  next
    fix j assume "j < Suc ?n"
    then consider "j = ?n" | "j < ?n" by linarith
    then show "IsPointerValid MAX_COMPONENTS (control_table p' j)"
      and "component (block p' (control_table p' j)) = Some (int j)"
      using v sl nh by (cases; simp add: tab blk)+
  qed
  have lv: "live p' x \<longleftrightarrow> live p x \<or> x = context_ptr r" for x
  proof
    assume "live p' x"
    then obtain j where j: "j < Suc ?n" "control_table p' j = x"
      unfolding live_iff n' by blast
    show "live p x \<or> x = context_ptr r"
    proof (cases "j = ?n")
      case True
      with j(2) show ?thesis by (simp add: tab r)
    next
      case False
      with j have "j < ?n" "control_table p j = x" by (simp_all add: tab)
      then show ?thesis unfolding live_iff by blast
    qed
  next
    assume "live p x \<or> x = context_ptr r"
    then show "live p' x"
    proof
      assume "live p x"
      then obtain j where j: "j < ?n" "control_table p j = x"
        unfolding live_iff by blast
      then have "j < Suc ?n" "control_table p' j = x" by (simp_all add: tab)
      then show ?thesis unfolding live_iff n' by blast
    next
      assume "x = context_ptr r"
      then have "control_table p' ?n = x" by (simp add: tab r)
      then show ?thesis unfolding live_iff n' by blast
    qed
  qed
  have rc: "record_of p' x = record_of p x" if "live p x" for x
  proof -
    from inv that obtain j where j: "j < ?n" "control_table p j = x"
      "component (block p x) = Some (int j)"
      by (rule live_slot)
    with nh [OF j(1)] have "x \<noteq> ?h" by simp
    with j show ?thesis
      by (simp add: record_of_def blk) (simp add: p')
  qed
  from lt have "int ?n < int MAX_COMPONENTS" by (simp only: of_nat_less_iff)
  then have ilt: "uint (Count p) < int MAX_COMPONENTS" by simp
  have rn: "record_of p' (context_ptr r) = c"
    using ilt by (simp add: record_of_def blk r c) (simp add: p')
  from inv' r lv rc rn show ?thesis by blast
qed

section \<open>The claims\<close>

text \<open>
  C1, where the code departs from it. Three records are made; the third is put to sleep
  and the checkpoint applied, then the first is put to sleep and the checkpoint applied.
  \<^verbatim>\<open>SetActiveInternal\<close> takes the record's index from the start of the active block, and
  \<^verbatim>\<open>SwapComponents\<close> reads it as an index from the start of the array. With one record
  asleep already, the first record, which lies in slot 2, is "swapped" from slot 1 to the
  boundary slot 1, that is, not moved. The counts change (two asleep, one active), so the
  active block is slot 2: the next \<^verbatim>\<open>Update\<close> ticks the first record, which is flagged
  asleep, and skips the second, which is flagged active and lies in slot 1.
\<close>

theorem sleep_among_sleepers:
  "map_option observe (final (run id (sleep_twice_calls @ [DoUpdate]) (testbed blank_memory))) =
     Some (2, 1, [(Inr (Some 2), False), (Inr (Some 1), True), (Inr (Some 0), False)], [[1]])"
  by (simp add: scenario_defs del: mem_control_block_pool)

text \<open>
  C2, where the code departs from it. After the calls of C1 the second record is flagged
  active and lies in slot 1, inside the sleeping block. Putting it to sleep makes
  \<^verbatim>\<open>SetActiveInternal\<close> compute the index \<open>1 - 2\<close>, which \<^verbatim>\<open>SwapComponents\<close> receives as the
  \<^verbatim>\<open>size_t\<close> value \<open>2^64 - 1\<close>: both arrays are indexed outside their bounds, and the
  checkpoint leaves no defined store for the invariant to hold in.
\<close>

theorem sleep_out_of_bounds:
  "map_option observe (final (run id sleep_twice_calls (testbed blank_memory))) =
     Some (2, 1, [(Inr (Some 2), False), (Inr (Some 1), True), (Inr (Some 0), False)], []) \<and>
   run id sleep_thrice_calls (testbed blank_memory) = Some Undefined"
  by (simp add: scenario_defs del: mem_control_block_pool)

text \<open>
  C3, amended. Let \<open>r\<close> be a valid reference to a control block of this store, and let the
  pending changes list be intact for that block (a block with a pending change is on the
  list). Then \<^verbatim>\<open>Delete\<close> returns, and when the following \<^verbatim>\<open>LateUpdate\<close> returns, \<open>r\<close> is
  not valid, \<^verbatim>\<open>Get\<close> throws, and the tag of the block is the captured one plus one: the
  destruction has incremented it exactly once. A reference that \<^verbatim>\<open>Create\<close> then makes on
  the same block is valid, and its captured tag is that of \<open>r\<close> plus one (the constructor
  keeps the tag): it differs from that of \<open>r\<close>, and it is larger unless the tag of \<open>r\<close> was
  the largest \<^verbatim>\<open>size_t\<close> value, where the increment wraps around to 0.
\<close>

theorem deleted_reference_invalid:
  assumes "IsValid (mem (control_block_pool p)) r"
    and "IsPointerValid MAX_COMPONENTS (context_ptr r)"
    and "IsPendingChanges (block p (context_ptr r)) \<longrightarrow> queued p (context_ptr r)"
  shows "\<exists>p1. Delete r p = Returned () p1 \<and>
     (\<forall>tr p2. LateUpdate p1 = Some (Returned tr p2) \<longrightarrow>
        \<not> IsValid (mem (control_block_pool p2)) r \<and>
        Get (mem (control_block_pool p2)) r = Inl DereferenceInvalid \<and>
        tag (block p2 (context_ptr r)) = control_block_tag r + 1 \<and>
        (\<forall>c r' p3. Create c p2 = Returned r' p3 \<and> context_ptr r' = context_ptr r \<longrightarrow>
           IsValid (mem (control_block_pool p3)) r' \<and>
           control_block_tag r' = control_block_tag r + 1 \<and>
           control_block_tag r' \<noteq> control_block_tag r \<and>
           (control_block_tag r \<noteq> - 1 \<longrightarrow> control_block_tag r < control_block_tag r')))"
proof -
  let ?c = "context_ptr r"
  from Delete_returns [OF assms(1,2)] obtain p1 where d: "Delete r p = Returned () p1"
    by simp
  from assms(1) have g: "tag (block p ?c) = control_block_tag r"
    by (simp add: IsValid_def GetGarbageTag_def)
  have "\<not> IsValid (mem (control_block_pool p2)) r \<and>
        Get (mem (control_block_pool p2)) r = Inl DereferenceInvalid \<and>
        tag (block p2 ?c) = control_block_tag r + 1 \<and>
        (\<forall>c r' p3. Create c p2 = Returned r' p3 \<and> context_ptr r' = ?c \<longrightarrow>
           IsValid (mem (control_block_pool p3)) r' \<and>
           control_block_tag r' = control_block_tag r + 1 \<and>
           control_block_tag r' \<noteq> control_block_tag r \<and>
           (control_block_tag r \<noteq> - 1 \<longrightarrow> control_block_tag r < control_block_tag r'))"
    if l: "LateUpdate p1 = Some (Returned tr p2)" for tr p2
  proof -
    note e = Delete_effect [OF assms d]
    from LateUpdate_deleted [OF e(1,2) l] e(3) g
    have t2: "tag (block p2 ?c) = control_block_tag r + 1"
      by simp
    then have inv: "\<not> IsValid (mem (control_block_pool p2)) r"
      by (simp add: IsValid_def GetGarbageTag_def size_t_succ)
    have "IsValid (mem (control_block_pool p3)) r' \<and>
           control_block_tag r' = control_block_tag r + 1 \<and>
           control_block_tag r' \<noteq> control_block_tag r \<and>
           (control_block_tag r \<noteq> - 1 \<longrightarrow> control_block_tag r < control_block_tag r')"
      if cr: "Create c p2 = Returned r' p3" and same: "context_ptr r' = ?c" for c r' p3
      using Create_reference(1,2) [OF cr] same t2 by (simp add: size_t_succ)
    then have "\<forall>c r' p3. Create c p2 = Returned r' p3 \<and> context_ptr r' = ?c \<longrightarrow>
           IsValid (mem (control_block_pool p3)) r' \<and>
           control_block_tag r' = control_block_tag r + 1 \<and>
           control_block_tag r' \<noteq> control_block_tag r \<and>
           (control_block_tag r \<noteq> - 1 \<longrightarrow> control_block_tag r < control_block_tag r')"
      by blast
    with t2 inv show ?thesis
      by (simp add: Get_def)
  qed
  with d show ?thesis by blast
qed

theorem deleted_reference_invalid_witness:
  "IsValid (mem (control_block_pool (test_manager (testbed_after (take 1 reuse_calls)))))
     (cat (testbed_after (take 1 reuse_calls)) 0) \<and>
   IsPointerValid MAX_COMPONENTS (context_ptr (cat (testbed_after (take 1 reuse_calls)) 0)) \<and>
   \<not> IsPendingChanges (block (test_manager (testbed_after (take 1 reuse_calls)))
        (context_ptr (cat (testbed_after (take 1 reuse_calls)) 0))) \<and>
   Delete (cat (testbed_after (take 1 reuse_calls)) 0) (test_manager (testbed_after (take 1 reuse_calls))) =
     Returned () (test_manager (testbed_after (take 2 reuse_calls))) \<and>
   LateUpdate (test_manager (testbed_after (take 2 reuse_calls))) =
     Some (Returned [Elem 0] (test_manager (testbed_after (take 3 reuse_calls)))) \<and>
   \<not> IsValid (mem (control_block_pool (test_manager (testbed_after (take 3 reuse_calls)))))
     (cat (testbed_after (take 1 reuse_calls)) 0) \<and>
   Get (mem (control_block_pool (test_manager (testbed_after (take 3 reuse_calls)))))
     (cat (testbed_after (take 1 reuse_calls)) 0) = Inl DereferenceInvalid \<and>
   Create (Some 2) (test_manager (testbed_after (take 3 reuse_calls))) =
     Returned (cat (testbed_after reuse_calls) 1) (test_manager (testbed_after reuse_calls)) \<and>
   context_ptr (cat (testbed_after reuse_calls) 1) = context_ptr (cat (testbed_after (take 1 reuse_calls)) 0) \<and>
   IsValid (mem (control_block_pool (test_manager (testbed_after reuse_calls))))
     (cat (testbed_after reuse_calls) 1) \<and>
   control_block_tag (cat (testbed_after (take 1 reuse_calls)) 0) <
     control_block_tag (cat (testbed_after reuse_calls) 1)"
proof -
  let ?P = "test_manager (testbed_after (take 1 reuse_calls))"
  let ?R = "cat (testbed_after (take 1 reuse_calls)) 0"
  let ?P1 = "test_manager (testbed_after (take 2 reuse_calls))"
  let ?P2 = "test_manager (testbed_after (take 3 reuse_calls))"
  let ?P3 = "test_manager (testbed_after reuse_calls)"
  let ?R' = "cat (testbed_after reuse_calls) 1"
  have h1: "IsValid (mem (control_block_pool ?P)) ?R"
    by (simp add: scenario_defs del: mem_control_block_pool)
  have h2: "IsPointerValid MAX_COMPONENTS (context_ptr ?R)"
    by (simp add: scenario_defs del: mem_control_block_pool)
  have h3: "\<not> IsPendingChanges (block ?P (context_ptr ?R))"
    by (simp add: scenario_defs del: mem_control_block_pool)
  have d: "Delete ?R ?P = Returned () ?P1"
    by (simp add: scenario_defs del: mem_control_block_pool)
  have l: "LateUpdate ?P1 = Some (Returned [Elem 0] ?P2)"
    by (simp add: scenario_defs del: mem_control_block_pool)
  have c: "Create (Some 2) ?P2 = Returned ?R' ?P3"
    by (simp add: scenario_defs del: mem_control_block_pool)
  have s: "context_ptr ?R' = context_ptr ?R"
    by (simp add: scenario_defs del: mem_control_block_pool)
  have m: "control_block_tag ?R \<noteq> - 1"
    by (simp add: scenario_defs del: mem_control_block_pool)
  from h3 have h3': "IsPendingChanges (block ?P (context_ptr ?R)) \<longrightarrow> queued ?P (context_ptr ?R)"
    by simp
  from deleted_reference_invalid [OF h1 h2 h3'] d l c s m
  have "\<not> IsValid (mem (control_block_pool ?P2)) ?R \<and>
        Get (mem (control_block_pool ?P2)) ?R = Inl DereferenceInvalid \<and>
        IsValid (mem (control_block_pool ?P3)) ?R' \<and>
        control_block_tag ?R < control_block_tag ?R'"
    by (metis outcome.inject(1))
  with h1 h2 h3 d l c s show ?thesis
    by blast
qed

text \<open>
  C3, as stated, fails in "larger". \<open>worn_pool (- 1)\<close> is the store that \<open>2^64 - 1\<close> cycles
  of creating and deleting one record leave: its first block carries the largest tag. The
  reference made there captures \<open>2^64 - 1\<close>; after its deletion the next reference to the
  same block is valid and captures 0, which is not larger.
\<close>

theorem generation_wraps:
  "cycles 18446744073709551615 (ComponentPool blank_memory) = Some (worn_pool (- 1)) \<and>
   map_option cats (final (run id reuse_calls \<lparr>test_manager = worn_pool (- 1), cats = [], printed = []\<rparr>)) =
     Some [\<lparr>context_ptr = Elem 0, control_block_tag = - 1\<rparr>,
           \<lparr>context_ptr = Elem 0, control_block_tag = 0\<rparr>] \<and>
   map_option observe (final (run id reuse_calls \<lparr>test_manager = worn_pool (- 1), cats = [], printed = []\<rparr>)) =
     Some (0, 1, [(Inl DereferenceInvalid, True), (Inr (Some 0), True)], []) \<and>
   \<not> control_block_tag \<lparr>context_ptr = Elem 0, control_block_tag = - 1\<rparr>
       < control_block_tag \<lparr>context_ptr = Elem 0, control_block_tag = 0\<rparr>"
proof -
  have "(18446744073709551615 :: nat) = Suc 18446744073709551614"
    by simp
  then have a: "cycles 18446744073709551615 (ComponentPool blank_memory) =
      Some (worn_pool (of_nat 18446744073709551615))"
    by (simp only: cycles_fresh)
  have b: "(of_nat 18446744073709551615 :: size_t) = - 1"
    by simp
  from a have 1: "cycles 18446744073709551615 (ComponentPool blank_memory) = Some (worn_pool (- 1))"
    by (simp only: b)
  have 2: "map_option cats (final (run id reuse_calls \<lparr>test_manager = worn_pool (- 1), cats = [], printed = []\<rparr>)) =
     Some [\<lparr>context_ptr = Elem 0, control_block_tag = - 1\<rparr>,
           \<lparr>context_ptr = Elem 0, control_block_tag = 0\<rparr>]"
    by (simp add: worn_pool_def scenario_defs del: mem_control_block_pool)
  have 3: "map_option observe (final (run id reuse_calls \<lparr>test_manager = worn_pool (- 1), cats = [], printed = []\<rparr>)) =
     Some (0, 1, [(Inl DereferenceInvalid, True), (Inr (Some 0), True)], [])"
    by (simp add: worn_pool_def scenario_defs del: mem_control_block_pool)
  from 1 2 3 show ?thesis by simp
qed

text \<open>
  C4: when the store holds \<^verbatim>\<open>MAX_COMPONENTS\<close> = 1000 records, \<^verbatim>\<open>Create\<close> throws the
  allocation limit error, and the store it leaves is the one it was called in: the records,
  the control table, both counts, the free list and every control block are unchanged.
\<close>

theorem Create_at_capacity:
  assumes "Count p = of_nat MAX_COMPONENTS"
  shows "Create c p = Thrown AllocationLimit p"
  using assms by (simp add: Create_def)

theorem Create_at_capacity_witness:
  "Count (created 1000 (0::nat) (ComponentPool blank_memory)) = of_nat MAX_COMPONENTS \<and>
   Create (Some 0) (created 1000 (0::nat) (ComponentPool blank_memory)) =
     Thrown AllocationLimit (created 1000 (0::nat) (ComponentPool blank_memory))"
proof -
  have c: "Count (created 1000 (0::nat) (ComponentPool blank_memory)) = of_nat MAX_COMPONENTS"
    using created_fresh [of 1000 "0::nat" blank_memory]
    by (simp add: Count_def MAX_COMPONENTS_def)
  from c Create_at_capacity [OF c, of "Some 0"] show ?thesis
    by simp
qed







text \<open>
  C8, as the code has it. \<^verbatim>\<open>Allocate\<close> and \<^verbatim>\<open>Deallocate\<close> take the number of objects and
  throw when it is not 1, before any other test. With that third failure added, the
  failures are exactly the named ones: \<^verbatim>\<open>Allocate(1)\<close> throws exactly when the free list is
  empty, \<^verbatim>\<open>Deallocate(ptr, 1)\<close> exactly when the pointer is null, outside the pool's array
  or not on an element boundary; no call is undefined, and a call that throws leaves the
  pool as it was. (\<^verbatim>\<open>IsPointerValid\<close> returns a truth value on every pointer.)
\<close>

theorem pool_failures:
  "Allocate n P \<noteq> Undefined \<and> Deallocate N ptr m P \<noteq> Undefined \<and>
   ((\<exists>P'. Allocate n P = Thrown e P') =
      (n \<noteq> 1 \<and> e = AllocateNotOne \<or> n = 1 \<and> pool_head P = Null \<and> e = PoolEmpty)) \<and>
   ((\<exists>P'. Deallocate N ptr m P = Thrown e P') =
      (m \<noteq> 1 \<and> e = DeallocateNotOne \<or>
       m = 1 \<and> e = InvalidPointer \<and>
         (ptr = Null \<or> (\<exists>k. ptr = Elem k \<and> (k < 0 \<or> int N \<le> k)) \<or> (\<exists>k. ptr = Inside k)))) \<and>
   (\<forall>e' P'. Allocate n P = Thrown e' P' \<longrightarrow> P' = P) \<and>
   (\<forall>e' P'. Deallocate N ptr m P = Thrown e' P' \<longrightarrow> P' = P)"
  by (cases ptr) (auto simp: Allocate_def Deallocate_def IsPointerValid_def Let_def)

theorem pool_failures_witness:
  "Allocate 1 (CRCBPool 1000 blank_memory) \<noteq> Undefined \<and>
   Deallocate 1000 (Inside 3) 1 (CRCBPool 1000 blank_memory) \<noteq> Undefined \<and>
   (\<nexists>P'. Allocate 1 (CRCBPool 1000 blank_memory) = Thrown PoolEmpty P') \<and>
   (\<exists>P'. Deallocate 1000 (Inside 3) 1 (CRCBPool 1000 blank_memory) = Thrown InvalidPointer P')"
  using pool_failures [of 1 "CRCBPool 1000 blank_memory" 1000 "Inside 3" 1 PoolEmpty]
    pool_failures [of 1 "CRCBPool 1000 blank_memory" 1000 "Inside 3" 1 InvalidPointer]
  by (simp add: pool_head_CRCBPool)

text \<open>
  C8, as stated, fails: on a fresh pool, whose free list is not empty, \<^verbatim>\<open>Allocate(2)\<close>
  throws, and the failure is neither of the two named ones.
\<close>

theorem allocate_two_throws:
  "pool_head (CRCBPool 1000 blank_memory) = Elem 0 \<and>
   Allocate 2 (CRCBPool 1000 blank_memory) = Thrown AllocateNotOne (CRCBPool 1000 blank_memory)"
  by (simp add: Allocate_def pool_head_CRCBPool)

text \<open>
  C9: \<^verbatim>\<open>Deallocate\<close> accepts every pointer to an element of the pool's array, whatever
  the state of the pool (\<^verbatim>\<open>IsPointerValid\<close> does not read it). Returning the same block
  twice in a row succeeds both times, and the next two \<^verbatim>\<open>Allocate\<close> calls both return that
  block.
\<close>

theorem double_deallocate:
  assumes "IsPointerValid N b"
  shows "\<exists>P1 P2 P3 P4.
           Deallocate N b 1 P = Returned () P1 \<and> Deallocate N b 1 P1 = Returned () P2 \<and>
           Allocate 1 P2 = Returned b P3 \<and> Allocate 1 P3 = Returned b P4"
  using assms by (auto simp: Allocate_def Deallocate_def IsPointerValid_iff Let_def)

theorem double_deallocate_witness:
  "IsPointerValid 1000 (Elem 7) \<and>
   (\<exists>P1 P2 P3 P4.
      Deallocate 1000 (Elem 7) 1 (CRCBPool 1000 blank_memory) = Returned () P1 \<and>
      Deallocate 1000 (Elem 7) 1 P1 = Returned () P2 \<and>
      Allocate 1 P2 = Returned (Elem 7) P3 \<and> Allocate 1 P3 = Returned (Elem 7) P4)"
proof -
  have v: "IsPointerValid 1000 (Elem 7)"
    by (simp add: IsPointerValid_def)
  from v double_deallocate [OF v, of "CRCBPool 1000 blank_memory"] show ?thesis
    by simp
qed

text \<open>
  C10, where the code departs from it. Three records are made, the third is put to sleep
  and the checkpoint applied. The first record is active; \<^verbatim>\<open>SetActive(cat1, false)\<close> queues a
  sleep request for it, and \<^verbatim>\<open>SetActive(cat1, true)\<close> then returns and leaves the store as
  it was, the request still queued. At the checkpoint the request is applied by the sleep
  branch of \<^verbatim>\<open>SetActiveInternal\<close>, which with one record asleep already does not move the
  record (the defect of C1): the first record is flagged asleep and stays in the active
  block, where the next \<^verbatim>\<open>Update\<close> ticks it. With two records asleep (after the calls of
  C1) the same two requests for the second record end in an access outside the arrays.
\<close>

theorem queued_sleep_misplaced:
  "map_option
     (\<lambda>t. (IsValid (mem (control_block_pool (test_manager t))) (cat t 0),
           flags (block (test_manager t) (context_ptr (cat t 0))) = IS_ACTIVE OR PENDING_SLEEP,
           pending_changes_head (test_manager t) = context_ptr (cat t 0),
           SetActive (cat t 0) True (test_manager t) = Returned () (test_manager t)))
     (final (run id (take 6 sleep_wake_calls) (testbed blank_memory))) =
     Some (True, True, True, True) \<and>
   map_option observe (final (run id (sleep_wake_calls @ [DoLateUpdate, DoUpdate]) (testbed blank_memory))) =
     Some (2, 1, [(Inr (Some 2), False), (Inr (Some 1), True), (Inr (Some 0), False)], [[1]]) \<and>
   run id (sleep_twice_calls @ [DoSetActive 1 False, DoSetActive 1 True, DoLateUpdate])
     (testbed blank_memory) = Some Undefined"
  by (simp add: scenario_defs del: mem_control_block_pool)

end
